theory Spec2Isabelle
  imports Complex_Main "HOL-Library.Sublist"
begin

section \<open>TDOA and DOA estimation: a shallow embedding of \<open>tdoa.py\<close> and \<open>doa.py\<close>\<close>

text \<open>
  The two modules are pure numerical functions over NumPy arrays. The embedding reads a
  Python or NumPy float as a \<^typ>\<open>real\<close> and a complex spectrum value as a
  \<^typ>\<open>complex\<close>: arithmetic is exact, there is no rounding, no infinity and no NaN.
  A one-dimensional array is a list. Every \<open>raise\<close> of the source, and every place where
  the library called by the source raises, is an \<open>Inl\<close> branch of the result.
\<close>

text \<open>
  What the exact reading leaves out: a float64 product can underflow to 0 or overflow to
  an infinity, an integer array can wrap around, and rounding can break or create a tie
  between two correlation values. The statements about which operations an estimator
  performs do not depend on this. The statements about the value returned for particular
  signals (a signal against itself, a signal against a delayed copy of itself) are
  statements about exact arithmetic, and say so.
\<close>

subsection \<open>Errors\<close>

text \<open>
  \<open>ValueError\<close> carries its message. \<open>NonFinite\<close> is not a Python exception: it marks a
  call whose NumPy result is an infinity or NaN (a division of an array by a zero sample
  rate, which NumPy only warns about); the reals have no such value, so the model sets
  the outcome apart instead of inventing a number.
\<close>

datatype error =
    ValueError string
  | ZeroDivisionError
  | NonFinite

subsection \<open>\<open>doa.py\<close>\<close>

text \<open>\<open>C = 343\<close>, the speed of sound in m/s.\<close>

definition C :: real where
  "C = 343"

text \<open>\<open>np.clip(a, lo, hi)\<close> is \<open>minimum(maximum(a, lo), hi)\<close>.\<close>

definition clip :: "real \<Rightarrow> real \<Rightarrow> real \<Rightarrow> real" where
  "clip a lo hi = min (max a lo) hi"

text \<open>\<open>np.degrees\<close>: radians to degrees.\<close>

definition degrees :: "real \<Rightarrow> real" where
  "degrees x = x * 180 / pi"

text \<open>
  \<open>estimate_doa_from_tdoa(tdoa, d=0.1, c=C)\<close>. The \<open>if not (-1.0 <= val <= 1.0): pass\<close>
  of the source has no effect and is left out. The division \<open>tdoa * c / d\<close> by a zero
  \<open>d\<close> raises \<open>ZeroDivisionError\<close> on Python floats (on NumPy scalars it gives an
  infinity or NaN, which the reals do not have); the model takes the Python branch.
\<close>

definition estimate_doa_from_tdoa :: "real \<Rightarrow> real \<Rightarrow> real \<Rightarrow> error + real" where
  "estimate_doa_from_tdoa tdoa d c =
     (if d = 0 then Inl ZeroDivisionError
      else
        let val = tdoa * c / d;
            val = clip val (- 1) 1;
            theta_rad = arccos val
        in Inr (degrees theta_rad))"

text \<open>The call \<open>estimate_doa_from_tdoa(tdoa, d=d)\<close> of \<open>main.py\<close>: the sound speed defaults to \<open>C\<close>.\<close>

definition estimate_doa_from_tdoa_default_c :: "real \<Rightarrow> real \<Rightarrow> error + real" where
  "estimate_doa_from_tdoa_default_c tdoa d = estimate_doa_from_tdoa tdoa d C"

text \<open>The far-field geometric model of the claims: the TDOA implied by an angle in degrees.\<close>

definition radians :: "real \<Rightarrow> real" where
  "radians x = x * pi / 180"

definition tdoa_of_angle :: "real \<Rightarrow> real \<Rightarrow> real \<Rightarrow> real" where
  "tdoa_of_angle theta d c = d * cos (radians theta) / c"

subsection \<open>NumPy and SciPy primitives used by \<open>tdoa.py\<close>\<close>

text \<open>
  \<open>np.argmax\<close> on a one-dimensional array: a left-to-right scan that keeps the running
  maximum and replaces it only by a strictly greater element. An empty array raises
  \<open>ValueError\<close>.
\<close>

fun argmax_scan :: "real \<Rightarrow> nat \<Rightarrow> nat \<Rightarrow> real list \<Rightarrow> nat" where
  "argmax_scan mp best i [] = best"
| "argmax_scan mp best i (x # xs) =
     (if mp < x then argmax_scan x i (Suc i) xs else argmax_scan mp best (Suc i) xs)"

definition argmax :: "real list \<Rightarrow> error + nat" where
  "argmax a =
     (case a of
        [] \<Rightarrow> Inl (ValueError ''attempt to get argmax of an empty sequence'')
      | x # xs \<Rightarrow> Inr (argmax_scan x 0 1 xs))"

text \<open>
  \<open>scipy.signal.convolve(a, v, mode='full')\<close> on one-dimensional real arrays: the
  discrete linear convolution, of length \<open>len(a) + len(v) - 1\<close>; an empty operand gives
  the empty array.
\<close>

definition convolve :: "real list \<Rightarrow> real list \<Rightarrow> real list" where
  "convolve a v =
     (if a = [] \<or> v = [] then []
      else map (\<lambda>k. \<Sum>j\<leftarrow>[0..<length a].
                  if j \<le> k \<and> k - j < length v then a ! j * v ! (k - j) else 0)
             [0..<length a + length v - 1])"

text \<open>
  \<open>scipy.signal.correlate(in1, in2, mode='full')\<close> is
  \<open>convolve(in1, _reverse_and_conj(in2), mode)\<close>; on real samples the conjugate is the
  identity.
\<close>

definition correlate :: "real list \<Rightarrow> real list \<Rightarrow> real list" where
  "correlate in1 in2 = convolve in1 (rev in2)"

text \<open>\<open>scipy.signal.correlation_lags(in1_len, in2_len, mode='full')\<close> is
  \<open>np.arange(-in2_len + 1, in1_len)\<close>.\<close>

definition correlation_lags :: "nat \<Rightarrow> nat \<Rightarrow> int list" where
  "correlation_lags in1_len in2_len = [- int in2_len + 1 .. int in1_len - 1]"

text \<open>
  \<open>np.fft.fft(a, n=n)\<close>: the input is cropped or zero-padded to length \<open>n\<close>, then
  \<open>A[k] = sum_j a[j] * exp(-2 pi i j k / n)\<close>. A length below 1 raises \<open>ValueError\<close>.
  \<open>np.fft.ifft(A)\<close>: \<open>a[m] = (1 / n) * sum_k A[k] * exp(2 pi i k m / n)\<close>.
\<close>

definition resize :: "complex list \<Rightarrow> nat \<Rightarrow> complex list" where
  "resize a n = take n a @ replicate (n - length a) 0"

definition dft :: "complex list \<Rightarrow> complex list" where
  "dft z =
     (let n = length z
      in map (\<lambda>k. \<Sum>j\<leftarrow>[0..<n]. z ! j * cis (- (2 * pi * real j * real k / real n))) [0..<n])"

definition fft :: "real list \<Rightarrow> int \<Rightarrow> error + complex list" where
  "fft a n =
     (if n < 1 then
        Inl (ValueError (if n = 0 then ''Invalid number of FFT data points (0) specified.''
                         else ''Invalid number of FFT data points (-1) specified.''))
      else Inr (dft (resize (map complex_of_real a) (nat n))))"

definition ifft :: "complex list \<Rightarrow> complex list" where
  "ifft a =
     (let n = length a
      in map (\<lambda>m. (\<Sum>k\<leftarrow>[0..<n]. a ! k * cis (2 * pi * real k * real m / real n)) / of_nat n)
           [0..<n])"

text \<open>
  \<open>np.roll(x, shift)\<close> on a one-dimensional array moves the last \<open>shift mod n\<close> elements
  to the front; \<open>np.fft.fftshift(x)\<close> is \<open>roll(x, n // 2)\<close>.
\<close>

definition roll :: "'a list \<Rightarrow> nat \<Rightarrow> 'a list" where
  "roll x shift =
     (let n = length x
      in if n = 0 then x else drop (n - shift mod n) x @ take (n - shift mod n) x)"

definition fftshift :: "'a list \<Rightarrow> 'a list" where
  "fftshift x = roll x (length x div 2)"

text \<open>
  \<open>str.lower\<close>. A \<^typ>\<open>char\<close> is a byte, so the model lowers the ASCII letters and keeps
  every other byte. Python also lowers letters outside ASCII, but no such letter is
  lowered to one of the ASCII letters of \<open>'phat'\<close> or \<open>'scot'\<close>, so the two comparisons of
  the source come out the same.
\<close>

definition lower_char :: "char \<Rightarrow> char" where
  "lower_char c =
     (let k = (of_char c :: nat)
      in if 65 \<le> k \<and> k \<le> 90 then char_of (k + 32) else c)"

definition lower :: "string \<Rightarrow> string" where
  "lower s = map lower_char s"

subsection \<open>\<open>tdoa.py\<close>\<close>

text \<open>
  \<open>estimate_tdoa_cc(sig1, sig2, fs)\<close>. The signals are taken as already flattened. On an
  empty signal SciPy either returns an empty correlation, on which \<open>np.argmax\<close> raises
  \<open>ValueError\<close>, or raises \<open>ValueError\<close> itself, depending on the method it picks; the model
  shows the first. A zero sample rate makes every entry of \<open>lags_seconds\<close> an infinity or
  NaN. The samples, their products and the sums are exact here; in the source a float64
  product can underflow or overflow and an integer array can wrap around, which changes
  the correlation values the maximum is taken over.
\<close>

definition estimate_tdoa_cc :: "real list \<Rightarrow> real list \<Rightarrow> real \<Rightarrow> error + real" where
  "estimate_tdoa_cc sig1 sig2 fs =
     (let corr = correlate sig1 sig2;
          lags_samples = correlation_lags (length sig1) (length sig2);
          lags_seconds = map (\<lambda>l. real_of_int l / fs) lags_samples
      in case argmax corr of
           Inl e \<Rightarrow> Inl e
         | Inr i \<Rightarrow> if fs = 0 then Inl NonFinite else Inr (lags_seconds ! i))"

text \<open>The stabilising constant \<open>1e-10\<close> of both weightings.\<close>

definition epsilon :: real where
  "epsilon = 1 / 10 ^ 10"

text \<open>\<open>R = SIG1 * np.conj(SIG2)\<close>, element by element.\<close>

definition cross_spectrum :: "complex list \<Rightarrow> complex list \<Rightarrow> complex list" where
  "cross_spectrum SIG1 SIG2 = map2 (\<lambda>a b. a * cnj b) SIG1 SIG2"

text \<open>The \<open>phat\<close> branch: \<open>R_abs = np.abs(R); R = R / (R_abs + 1e-10)\<close>.\<close>

definition weight_phat :: "complex list \<Rightarrow> complex list" where
  "weight_phat R =
     (let R_abs = map cmod R
      in map2 (\<lambda>r a. r / complex_of_real (a + epsilon)) R R_abs)"

text \<open>
  The \<open>scot\<close> branch: \<open>P1 = np.abs(SIG1)**2; P2 = np.abs(SIG2)**2; den = np.sqrt(P1 * P2);
  R = R / (den + 1e-10)\<close>.
\<close>

definition weight_scot :: "complex list \<Rightarrow> complex list \<Rightarrow> complex list \<Rightarrow> complex list" where
  "weight_scot SIG1 SIG2 R =
     (let P1 = map (\<lambda>s. (cmod s)\<^sup>2) SIG1;
          P2 = map (\<lambda>s. (cmod s)\<^sup>2) SIG2;
          den = map2 (\<lambda>p q. sqrt (p * q)) P1 P2
      in map2 (\<lambda>r d. r / complex_of_real (d + epsilon)) R den)"

text \<open>The message of the \<open>ValueError\<close> raised for an unrecognised method, as UTF-8 bytes.\<close>

definition unrecognized_method_message :: string where
  "unrecognized_method_message =
     ''M'' @ [char_of (195 :: nat), char_of (169 :: nat)]
       @ ''todo GCC no reconocido. Use 'phat' o 'scot'.''"

text \<open>
  \<open>estimate_tdoa_gcc(sig1, sig2, fs, method='phat')\<close>. Both transforms and the
  cross-spectrum are computed before the method is looked at, so a transform length
  below 1 raises first. The array \<open>lags_samples\<close> of the source is never read and is left
  out. The transforms and the weights are exact here; in the source they are rounded,
  can overflow, and two values that tie exactly can come out in either order.
\<close>

definition estimate_tdoa_gcc :: "real list \<Rightarrow> real list \<Rightarrow> real \<Rightarrow> string \<Rightarrow> error + real" where
  "estimate_tdoa_gcc sig1 sig2 fs method =
     (let n = int (length sig1) + int (length sig2) - 1
      in case fft sig1 n of
           Inl e \<Rightarrow> Inl e
         | Inr SIG1 \<Rightarrow>
      (case fft sig2 n of
           Inl e \<Rightarrow> Inl e
         | Inr SIG2 \<Rightarrow>
      (let R = cross_spectrum SIG1 SIG2
       in case (if lower method = ''phat'' then Inr (weight_phat R)
                else if lower method = ''scot'' then Inr (weight_scot SIG1 SIG2 R)
                else Inl (ValueError unrecognized_method_message)) of
            Inl e \<Rightarrow> Inl e
          | Inr R \<Rightarrow>
       (let cc = fftshift (map Re (ifft R));
            lags_vector = map (\<lambda>i. (real_of_int (int i - n div 2)) / fs) [0..<nat n]
        in case argmax cc of
             Inl e \<Rightarrow> Inl e
           | Inr tdoa_index \<Rightarrow>
               if fs = 0 then Inl NonFinite else Inr (lags_vector ! tdoa_index)))))"

text \<open>
  A name for the weighted cross-spectrum that \<open>estimate_tdoa_gcc\<close> hands to \<open>ifft\<close> when the
  transform length is at least 1 and the method is recognised (the \<open>scot\<close> branch is the
  \<open>elif\<close> of the source).
\<close>

definition gcc_weighted :: "real list \<Rightarrow> real list \<Rightarrow> string \<Rightarrow> complex list" where
  "gcc_weighted sig1 sig2 method =
     (let n = length sig1 + length sig2 - 1;
          SIG1 = dft (resize (map complex_of_real sig1) n);
          SIG2 = dft (resize (map complex_of_real sig2) n);
          R = cross_spectrum SIG1 SIG2
      in if lower method = ''phat'' then weight_phat R else weight_scot SIG1 SIG2 R)"

subsection \<open>The linear cross-correlation, as the specification words it\<close>

text \<open>
  A signal read as a sequence over all integers, zero outside its samples, and the
  cross-correlation of two signals at lag \<open>k\<close>: the second signal slid by \<open>k\<close> samples
  relative to the first.
\<close>

definition sample :: "real list \<Rightarrow> int \<Rightarrow> real" where
  "sample x i = (if 0 \<le> i \<and> i < int (length x) then x ! nat i else 0)"

definition cross_correlation_at :: "real list \<Rightarrow> real list \<Rightarrow> int \<Rightarrow> real" where
  "cross_correlation_at x y k = (\<Sum>l\<leftarrow>[0..<length y]. sample x (int l + k) * y ! l)"

subsection \<open>The generalized cross-correlation, as the specification words it\<close>

text \<open>
  The two weightings; the spectrum of a signal at transform length \<open>n\<close> (zero-padded, or
  cropped); the cross-spectrum \<open>S1 * conj S2\<close> normalised by its own magnitude plus
  \<open>1e-10\<close> (phat) or by the square root of the product of the two power spectra plus
  \<open>1e-10\<close> (scot); and the real part of its inverse transform at a lag, which is periodic
  in the lag with period \<open>n\<close>.
\<close>

datatype weighting = Phat | Scot

definition spectrum_at :: "real list \<Rightarrow> nat \<Rightarrow> nat \<Rightarrow> complex" where
  "spectrum_at x n k =
     (\<Sum>j<n. complex_of_real (sample x (int j))
              * exp (- (2 * complex_of_real pi * \<i> * of_nat j * of_nat k / of_nat n)))"

definition weighted_cross_spectrum_at ::
    "weighting \<Rightarrow> real list \<Rightarrow> real list \<Rightarrow> nat \<Rightarrow> nat \<Rightarrow> complex" where
  "weighted_cross_spectrum_at w x1 x2 n k =
     (let S1 = spectrum_at x1 n k;
          S2 = spectrum_at x2 n k;
          R = S1 * cnj S2
      in case w of
           Phat \<Rightarrow> R / complex_of_real (cmod R + 1 / 10 ^ 10)
         | Scot \<Rightarrow> R / complex_of_real (sqrt ((cmod S1)\<^sup>2 * (cmod S2)\<^sup>2) + 1 / 10 ^ 10))"

definition gcc_at :: "weighting \<Rightarrow> real list \<Rightarrow> real list \<Rightarrow> nat \<Rightarrow> int \<Rightarrow> real" where
  "gcc_at w x1 x2 n lag =
     Re ((\<Sum>k<n. weighted_cross_spectrum_at w x1 x2 n k
                  * exp (2 * complex_of_real pi * \<i> * of_nat k * of_int lag / of_nat n))
         / of_nat n)"

text \<open>
  A record that holds the signal \<open>x\<close> after \<open>a\<close> samples of silence and before \<open>b\<close> samples
  of silence: the signal delayed by \<open>a\<close> samples, nothing cut off.
\<close>

definition pad_zeros :: "nat \<Rightarrow> real list \<Rightarrow> nat \<Rightarrow> real list" where
  "pad_zeros a x b = replicate a 0 @ x @ replicate b 0"

text \<open>
  The weight that both weightings give a frequency bin when the two signals are the same:
  the cross-spectrum is then \<open>|s|^2\<close>, and the \<open>phat\<close> and \<open>scot\<close> denominators are both
  \<open>|s|^2 + 1e-10\<close>.
\<close>

definition self_weight :: "complex \<Rightarrow> real" where
  "self_weight s = (cmod s)\<^sup>2 / ((cmod s)\<^sup>2 + epsilon)"

section \<open>Properties of the DOA converter\<close>

lemma clip_bounds: "lo \<le> hi \<Longrightarrow> lo \<le> clip a lo hi \<and> clip a lo hi \<le> hi"
  by (simp add: clip_def)

lemma clip_above: "lo \<le> hi \<Longrightarrow> hi < a \<Longrightarrow> clip a lo hi = hi"
  by (simp add: clip_def)

lemma clip_below: "lo \<le> hi \<Longrightarrow> a < lo \<Longrightarrow> clip a lo hi = lo"
  by (simp add: clip_def)

lemma clip_inside: "lo \<le> a \<Longrightarrow> a \<le> hi \<Longrightarrow> clip a lo hi = a"
  by (simp add: clip_def)

lemma degrees_pi: "degrees pi = 180"
  by (simp add: degrees_def)

lemma degrees_half_pi: "degrees (pi / 2) = 90"
  by (simp add: degrees_def)

lemma degrees_radians: "degrees (radians x) = x"
  by (simp add: degrees_def radians_def)

text \<open>
  C6. For positive distance and sound speed, a ratio \<open>tdoa * c / d\<close> above 1 gives exactly
  0 degrees and a ratio below -1 gives exactly 180 degrees, for every sound speed and in
  particular for the default 343: the ratio is clamped, never rejected.
\<close>

theorem estimate_doa_clamps_out_of_range:
  assumes "0 < d" and "0 < c"
  shows "(1 < tdoa * c / d \<longrightarrow> estimate_doa_from_tdoa tdoa d c = Inr 0)
       \<and> (tdoa * c / d < - 1 \<longrightarrow> estimate_doa_from_tdoa tdoa d c = Inr 180)
       \<and> (1 < tdoa * 343 / d \<longrightarrow> estimate_doa_from_tdoa_default_c tdoa d = Inr 0)
       \<and> (tdoa * 343 / d < - 1 \<longrightarrow> estimate_doa_from_tdoa_default_c tdoa d = Inr 180)"
  using assms
  by (simp add: estimate_doa_from_tdoa_def estimate_doa_from_tdoa_default_c_def C_def
      clip_above clip_below degrees_pi degrees_def)

theorem estimate_doa_clamps_out_of_range_witness:
  "estimate_doa_from_tdoa 1 (1 / 10) 343 = Inr 0
   \<and> estimate_doa_from_tdoa (- 1) (1 / 10) 343 = Inr 180
   \<and> estimate_doa_from_tdoa_default_c 1 (1 / 10) = Inr 0
   \<and> estimate_doa_from_tdoa_default_c (- 1) (1 / 10) = Inr 180"
  using estimate_doa_clamps_out_of_range [of "1 / 10" 343 1]
    estimate_doa_clamps_out_of_range [of "1 / 10" 343 "- 1"]
  by simp

text \<open>
  C7. For positive distance and sound speed the converter always returns an angle: the
  argument handed to \<open>arccos\<close> lies in [-1, 1], and the angle lies in [0, 180] degrees.
\<close>

theorem estimate_doa_total_and_bounded:
  assumes "0 < d" and "0 < c"
  shows "- 1 \<le> clip (tdoa * c / d) (- 1) 1 \<and> clip (tdoa * c / d) (- 1) 1 \<le> 1
       \<and> (\<exists>a. estimate_doa_from_tdoa tdoa d c = Inr a \<and> 0 \<le> a \<and> a \<le> 180)"
proof -
  let ?v = "clip (tdoa * c / d) (- 1) 1"
  have v: "- 1 \<le> ?v" "?v \<le> 1"
    using clip_bounds [of "- 1" 1 "tdoa * c / d"] by simp_all
  have lo: "0 \<le> arccos ?v" and hi: "arccos ?v \<le> pi"
    using v by (simp_all add: arccos_lbound arccos_ubound)
  have "0 \<le> degrees (arccos ?v)"
    using lo by (simp add: degrees_def)
  moreover have "degrees (arccos ?v) \<le> 180"
    using hi by (simp add: degrees_def pos_divide_le_eq)
  moreover have "estimate_doa_from_tdoa tdoa d c = Inr (degrees (arccos ?v))"
    using assms by (simp add: estimate_doa_from_tdoa_def)
  ultimately show ?thesis
    using v by simp
qed

theorem estimate_doa_total_and_bounded_witness:
  "\<exists>a. estimate_doa_from_tdoa 5 (1 / 10) 343 = Inr a \<and> 0 \<le> a \<and> a \<le> 180"
  using estimate_doa_total_and_bounded [of "1 / 10" 343 5]
  by simp

text \<open>
  C8. A zero TDOA maps to broadside: for every positive distance the converter returns
  exactly 90 degrees, whatever the sound speed (the default included).
\<close>

theorem estimate_doa_zero_tdoa:
  assumes "0 < d"
  shows "estimate_doa_from_tdoa 0 d c = Inr 90
       \<and> estimate_doa_from_tdoa_default_c 0 d = Inr 90"
  using assms
  by (simp add: estimate_doa_from_tdoa_def estimate_doa_from_tdoa_default_c_def
      clip_def degrees_half_pi)

theorem estimate_doa_zero_tdoa_witness:
  "estimate_doa_from_tdoa 0 (1 / 10) 343 = Inr 90
   \<and> estimate_doa_from_tdoa_default_c 0 (1 / 10) = Inr 90"
  using estimate_doa_zero_tdoa [of "1 / 10" 343]
  by simp

text \<open>
  C9. Round trip through the geometric model: for an angle \<open>theta\<close> in [0, 180] degrees,
  a positive distance and a positive sound speed, the TDOA \<open>d * cos theta / c\<close> implied by
  the angle is mapped back to \<open>theta\<close>. Over the reals the recovery is exact.
\<close>

theorem estimate_doa_round_trip:
  assumes "0 \<le> theta" and "theta \<le> 180" and "0 < d" and "0 < c"
  shows "estimate_doa_from_tdoa (tdoa_of_angle theta d c) d c = Inr theta"
proof -
  have r0: "0 \<le> radians theta"
    using assms(1) by (simp add: radians_def)
  have r1: "radians theta \<le> pi"
    using assms(2) by (simp add: radians_def)
  have ratio: "tdoa_of_angle theta d c * c / d = cos (radians theta)"
    using assms(3,4) by (simp add: tdoa_of_angle_def)
  have "clip (cos (radians theta)) (- 1) 1 = cos (radians theta)"
    by (rule clip_inside) simp_all
  then have "estimate_doa_from_tdoa (tdoa_of_angle theta d c) d c
    = Inr (degrees (arccos (cos (radians theta))))"
    using assms(3) ratio by (simp add: estimate_doa_from_tdoa_def)
  also have "arccos (cos (radians theta)) = radians theta"
    using r0 r1 by (rule arccos_cos)
  finally show ?thesis
    by (simp add: degrees_radians)
qed

theorem estimate_doa_round_trip_witness:
  "estimate_doa_from_tdoa (tdoa_of_angle 60 (1 / 10) 343) (1 / 10) 343 = Inr 60"
  using estimate_doa_round_trip [of 60 "1 / 10" 343]
  by simp

section \<open>Properties of the TDOA estimators\<close>

subsection \<open>\<open>argmax\<close> returns the first index of the maximum\<close>

lemma argmax_scan_correct:
  assumes "length pre = i" and "best < i" and "pre ! best = mp"
    and "\<forall>j<i. pre ! j \<le> mp" and "\<forall>j<best. pre ! j < mp"
  shows "argmax_scan mp best i xs < length (pre @ xs)
       \<and> (\<forall>j<length (pre @ xs). (pre @ xs) ! j \<le> (pre @ xs) ! argmax_scan mp best i xs)
       \<and> (\<forall>j<argmax_scan mp best i xs. (pre @ xs) ! j < (pre @ xs) ! argmax_scan mp best i xs)"
  using assms
proof (induction xs arbitrary: pre i best mp)
  case Nil
  then show ?case by simp
next
  case (Cons x xs)
  let ?pre = "pre @ [x]"
  have len: "length ?pre = Suc i" using Cons.prems(1) by simp
  show ?case
  proof (cases "mp < x")
    case True
    have a: "i < Suc i" by simp
    have b: "?pre ! i = x" using Cons.prems(1) by (simp add: nth_append)
    have c: "\<forall>j<Suc i. ?pre ! j \<le> x"
      using Cons.prems(1,4) True by (auto simp: nth_append less_Suc_eq intro: order_less_imp_le less_le_trans le_less_trans)
    have d: "\<forall>j<i. ?pre ! j < x"
      using Cons.prems(1,4) True by (auto simp: nth_append intro: le_less_trans)
    from Cons.IH [OF len a b c d] True show ?thesis by simp
  next
    case False
    have a: "best < Suc i" using Cons.prems(2) by simp
    have b: "?pre ! best = mp" using Cons.prems(1,2,3) by (simp add: nth_append)
    have c: "\<forall>j<Suc i. ?pre ! j \<le> mp"
      using Cons.prems(1,4) False by (auto simp: nth_append less_Suc_eq)
    have d: "\<forall>j<best. ?pre ! j < mp"
      using Cons.prems(1,2,5) by (auto simp: nth_append)
    from Cons.IH [OF len a b c d] False show ?thesis by simp
  qed
qed

lemma argmax_first_max:
  assumes "a \<noteq> []"
  shows "\<exists>r. argmax a = Inr r \<and> r < length a
       \<and> (\<forall>j<length a. a ! j \<le> a ! r) \<and> (\<forall>j<r. a ! j < a ! r)"
proof -
  obtain x xs where a: "a = x # xs" using assms by (cases a) auto
  have "argmax_scan x 0 1 xs < length ([x] @ xs)
       \<and> (\<forall>j<length ([x] @ xs). ([x] @ xs) ! j \<le> ([x] @ xs) ! argmax_scan x 0 1 xs)
       \<and> (\<forall>j<argmax_scan x 0 1 xs. ([x] @ xs) ! j < ([x] @ xs) ! argmax_scan x 0 1 xs)"
    by (rule argmax_scan_correct) simp_all
  then show ?thesis by (simp add: a argmax_def)
qed

lemma argmax_unique:
  assumes "i < length a" and "\<forall>j<length a. a ! j \<le> a ! i" and "\<forall>j<i. a ! j < a ! i"
  shows "argmax a = Inr i"
proof -
  have "a \<noteq> []" using assms(1) by auto
  from argmax_first_max [OF this] obtain r where r: "argmax a = Inr r" "r < length a"
    "\<forall>j<length a. a ! j \<le> a ! r" "\<forall>j<r. a ! j < a ! r" by blast
  have "r = i"
  proof (rule ccontr)
    assume "r \<noteq> i"
    then consider "r < i" | "i < r" by linarith
    then show False
    proof cases
      case 1
      then have "a ! r < a ! i" using assms(3) by simp
      moreover have "a ! i \<le> a ! r" using r(3) assms(1) by simp
      ultimately show False by simp
    next
      case 2
      then have "a ! i < a ! r" using r(4) by simp
      moreover have "a ! r \<le> a ! i" using assms(2) r(2) by simp
      ultimately show False by simp
    qed
  qed
  then show ?thesis using r(1) by simp
qed

lemma lower_phat: "lower ''phat'' = ''phat''"
  by code_simp

lemma lower_scot: "lower ''scot'' = ''scot''"
  by code_simp

lemma phat_neq_scot: "''phat'' \<noteq> ''scot''"
  by simp

lemma fft_ok: "1 \<le> n \<Longrightarrow> fft a (int n) = Inr (dft (resize (map complex_of_real a) n))"
  by (simp add: fft_def)

lemma estimate_tdoa_gcc_unfold:
  assumes "2 \<le> length sig1 + length sig2"
  shows "estimate_tdoa_gcc sig1 sig2 fs method =
     (if lower method \<noteq> ''phat'' \<and> lower method \<noteq> ''scot''
      then Inl (ValueError unrecognized_method_message)
      else case argmax (fftshift (map Re (ifft (gcc_weighted sig1 sig2 method)))) of
             Inl e \<Rightarrow> Inl e
           | Inr i \<Rightarrow>
               if fs = 0 then Inl NonFinite
               else Inr (map (\<lambda>i. real_of_int (int i - int (length sig1 + length sig2 - 1) div 2) / fs)
                          [0..<length sig1 + length sig2 - 1] ! i))"
proof -
  have n: "int (length sig1) + int (length sig2) - 1 = int (length sig1 + length sig2 - 1)"
    using assms by linarith
  have pos: "1 \<le> length sig1 + length sig2 - 1"
    using assms by simp
  have f1: "fft sig1 (int (length sig1 + length sig2 - 1))
      = Inr (dft (resize (map complex_of_real sig1) (length sig1 + length sig2 - 1)))"
    by (rule fft_ok [OF pos])
  have f2: "fft sig2 (int (length sig1 + length sig2 - 1))
      = Inr (dft (resize (map complex_of_real sig2) (length sig1 + length sig2 - 1)))"
    by (rule fft_ok [OF pos])
  show ?thesis
    unfolding estimate_tdoa_gcc_def n Let_def f1 f2 gcc_weighted_def
    by (simp split: sum.split)
qed

lemma estimate_tdoa_gcc_rejects:
  assumes "lower method \<noteq> ''phat''" and "lower method \<noteq> ''scot''"
    and "2 \<le> length sig1 + length sig2"
  shows "estimate_tdoa_gcc sig1 sig2 fs method = Inl (ValueError unrecognized_method_message)"
  using assms(1,2) by (simp add: estimate_tdoa_gcc_unfold [OF assms(3)])

lemma estimate_tdoa_gcc_short:
  assumes "length sig1 + length sig2 < 2"
  shows "\<exists>msg. estimate_tdoa_gcc sig1 sig2 fs method = Inl (ValueError msg)"
proof -
  have "int (length sig1) + int (length sig2) - 1 < 1" using assms by linarith
  then show ?thesis
    by (simp add: estimate_tdoa_gcc_def fft_def)
qed

text \<open>
  C5 (as amended). For every method string whose lower-case form is neither \<open>'phat'\<close> nor
  \<open>'scot'\<close>, \<open>estimate_tdoa_gcc\<close> fails with a \<open>ValueError\<close> and returns no number; when the
  transform length \<open>len(sig1) + len(sig2) - 1\<close> is at least 1 the error carries the fixed
  message of the source, which lists the supported methods.
\<close>
theorem estimate_tdoa_gcc_invalid_method:
  assumes "lower method \<noteq> ''phat''" and "lower method \<noteq> ''scot''"
  shows "(\<exists>msg. estimate_tdoa_gcc sig1 sig2 fs method = Inl (ValueError msg))
       \<and> (2 \<le> length sig1 + length sig2 \<longrightarrow>
            estimate_tdoa_gcc sig1 sig2 fs method = Inl (ValueError unrecognized_method_message))"
proof (cases "2 \<le> length sig1 + length sig2")
  case True
  then show ?thesis using estimate_tdoa_gcc_rejects [OF assms True] by simp
next
  case False
  then have "length sig1 + length sig2 < 2" by simp
  from estimate_tdoa_gcc_short [OF this] False show ?thesis by simp
qed

theorem estimate_tdoa_gcc_invalid_method_witness:
  "estimate_tdoa_gcc [1, 2] [3] 48000 ''invalid'' = Inl (ValueError unrecognized_method_message)"
proof -
  have a: "lower ''invalid'' \<noteq> ''phat''" by code_simp
  have b: "lower ''invalid'' \<noteq> ''scot''" by code_simp
  show ?thesis
    using estimate_tdoa_gcc_invalid_method [OF a b, of "[1, 2]" "[3]" 48000] by simp
qed

text \<open>
  C5 as stated fails: the message does not identify the rejected method. For the method
  \<open>'invalid'\<close> the error is raised with the fixed message, and \<open>'invalid'\<close> does not occur in it.
\<close>

theorem estimate_tdoa_gcc_message_omits_method:
  "estimate_tdoa_gcc [1] [1] 1 ''invalid'' = Inl (ValueError unrecognized_method_message)
   \<and> \<not> sublist ''invalid'' unrecognized_method_message"
proof -
  have a: "lower ''invalid'' \<noteq> ''phat''" by code_simp
  have b: "lower ''invalid'' \<noteq> ''scot''" by code_simp
  have c: "\<not> sublist ''invalid'' unrecognized_method_message" by code_simp
  have "estimate_tdoa_gcc [1] [1] 1 ''invalid'' = Inl (ValueError unrecognized_method_message)"
    by (rule estimate_tdoa_gcc_rejects [OF a b]) simp
  then show ?thesis using c by simp
qed

text \<open>
  Both transforms run before the method is looked at: with two empty signals the call
  fails in \<open>np.fft.fft\<close>, whatever the method, and never reaches the method check.
\<close>

lemma estimate_tdoa_gcc_transform_first:
  "estimate_tdoa_gcc [] [] fs meth
     = Inl (ValueError ''Invalid number of FFT data points (-1) specified.'')"
  by (simp add: estimate_tdoa_gcc_def fft_def)

lemma message_distinct:
  "unrecognized_method_message \<noteq> ''Invalid number of FFT data points (0) specified.''"
  "unrecognized_method_message \<noteq> ''Invalid number of FFT data points (-1) specified.''"
  "unrecognized_method_message \<noteq> ''attempt to get argmax of an empty sequence''"
  "''attempt to get argmax of an empty sequence'' \<noteq> unrecognized_method_message"
  "''Invalid number of FFT data points (0) specified.'' \<noteq> unrecognized_method_message"
  "''Invalid number of FFT data points (-1) specified.'' \<noteq> unrecognized_method_message"
  by (simp_all add: unrecognized_method_message_def)

lemma estimate_tdoa_gcc_accepts:
  assumes "lower method = ''phat'' \<or> lower method = ''scot''"
  shows "estimate_tdoa_gcc sig1 sig2 fs method \<noteq> Inl (ValueError unrecognized_method_message)"
proof (cases "2 \<le> length sig1 + length sig2")
  case True
  let ?cc = "fftshift (map Re (ifft (gcc_weighted sig1 sig2 method)))"
  show ?thesis
  proof (cases "?cc")
    case Nil
    then show ?thesis
      using assms by (auto simp: estimate_tdoa_gcc_unfold [OF True] argmax_def message_distinct)
  next
    case (Cons x xs)
    then show ?thesis
      using assms by (auto simp: estimate_tdoa_gcc_unfold [OF True] argmax_def)
  qed
next
  case False
  then have "int (length sig1) + int (length sig2) - 1 < 1" by linarith
  then show ?thesis
    by (simp add: estimate_tdoa_gcc_def fft_def message_distinct)
qed

lemma estimate_tdoa_gcc_lower:
  assumes "lower method = lower method'"
  shows "estimate_tdoa_gcc sig1 sig2 fs method = estimate_tdoa_gcc sig1 sig2 fs method'"
  unfolding estimate_tdoa_gcc_def assms ..

text \<open>
  C10. Method selection is case-insensitive: a method whose lower-case form is \<open>'phat'\<close>
  (or \<open>'scot'\<close>) gives the same outcome as \<open>'phat'\<close> (or \<open>'scot'\<close>) itself; the unrecognised-method
  error is raised only for a method whose lower-case form is neither, and (the transform
  length being at least 1) for every such method.
\<close>
theorem estimate_tdoa_gcc_case_insensitive:
  "(lower method = ''phat'' \<longrightarrow>
      estimate_tdoa_gcc sig1 sig2 fs method = estimate_tdoa_gcc sig1 sig2 fs ''phat'')
   \<and> (lower method = ''scot'' \<longrightarrow>
      estimate_tdoa_gcc sig1 sig2 fs method = estimate_tdoa_gcc sig1 sig2 fs ''scot'')
   \<and> (estimate_tdoa_gcc sig1 sig2 fs method = Inl (ValueError unrecognized_method_message) \<longrightarrow>
      lower method \<noteq> ''phat'' \<and> lower method \<noteq> ''scot'')
   \<and> (2 \<le> length sig1 + length sig2 \<longrightarrow> lower method \<noteq> ''phat'' \<longrightarrow> lower method \<noteq> ''scot'' \<longrightarrow>
      estimate_tdoa_gcc sig1 sig2 fs method = Inl (ValueError unrecognized_method_message))"
proof -
  have "estimate_tdoa_gcc sig1 sig2 fs method = estimate_tdoa_gcc sig1 sig2 fs ''phat''"
    if "lower method = ''phat''"
    by (rule estimate_tdoa_gcc_lower) (simp add: that lower_phat)
  moreover have "estimate_tdoa_gcc sig1 sig2 fs method = estimate_tdoa_gcc sig1 sig2 fs ''scot''"
    if "lower method = ''scot''"
    by (rule estimate_tdoa_gcc_lower) (simp add: that lower_scot)
  moreover have "lower method \<noteq> ''phat'' \<and> lower method \<noteq> ''scot''"
    if "estimate_tdoa_gcc sig1 sig2 fs method = Inl (ValueError unrecognized_method_message)"
    using that estimate_tdoa_gcc_accepts [of "method" sig1 sig2 fs] by blast
  ultimately show ?thesis
    using estimate_tdoa_gcc_rejects [of "method" sig1 sig2 fs] by blast
qed

theorem estimate_tdoa_gcc_case_insensitive_witness:
  "estimate_tdoa_gcc [1, 2] [2, 1] 48000 ''PHAT'' = estimate_tdoa_gcc [1, 2] [2, 1] 48000 ''phat''
   \<and> estimate_tdoa_gcc [1, 2] [2, 1] 48000 ''Scot'' = estimate_tdoa_gcc [1, 2] [2, 1] 48000 ''scot''
   \<and> lower ''Phat'' = ''phat''
   \<and> estimate_tdoa_gcc [1, 2] [2, 1] 48000 ''music'' = Inl (ValueError unrecognized_method_message)"
proof -
  have a: "lower ''PHAT'' = ''phat''" by code_simp
  have b: "lower ''Scot'' = ''scot''" by code_simp
  have c: "lower ''Phat'' = ''phat''" by code_simp
  have d: "lower ''music'' \<noteq> ''phat''" "lower ''music'' \<noteq> ''scot''" by code_simp+
  have e: "2 \<le> length [1, 2 :: real] + length [2, 1 :: real]" by simp
  have "estimate_tdoa_gcc [1, 2] [2, 1] 48000 ''PHAT'' = estimate_tdoa_gcc [1, 2] [2, 1] 48000 ''phat''"
    using a estimate_tdoa_gcc_case_insensitive [of "''PHAT''" "[1, 2]" "[2, 1]" 48000] by blast
  moreover have "estimate_tdoa_gcc [1, 2] [2, 1] 48000 ''Scot'' = estimate_tdoa_gcc [1, 2] [2, 1] 48000 ''scot''"
    using b estimate_tdoa_gcc_case_insensitive [of "''Scot''" "[1, 2]" "[2, 1]" 48000] by blast
  moreover have "estimate_tdoa_gcc [1, 2] [2, 1] 48000 ''music'' = Inl (ValueError unrecognized_method_message)"
    using d e estimate_tdoa_gcc_case_insensitive [of "''music''" "[1, 2]" "[2, 1]" 48000] by blast
  ultimately show ?thesis
    using c by blast
qed

subsection \<open>The cross-correlation estimator\<close>

lemma length_convolve:
  "a \<noteq> [] \<Longrightarrow> v \<noteq> [] \<Longrightarrow> length (convolve a v) = length a + length v - 1"
  by (simp add: convolve_def)

lemma length_correlate:
  "in1 \<noteq> [] \<Longrightarrow> in2 \<noteq> [] \<Longrightarrow> length (correlate in1 in2) = length in1 + length in2 - 1"
  by (simp add: correlate_def length_convolve)

lemma length_correlation_lags:
  "0 < l1 + l2 \<Longrightarrow> length (correlation_lags l1 l2) = l1 + l2 - 1"
  by (simp add: correlation_lags_def)

lemma nth_correlation_lags:
  "k < l1 + l2 - 1 \<Longrightarrow> correlation_lags l1 l2 ! k = int k - (int l2 - 1)"
  by (simp add: correlation_lags_def)

lemma nth_correlate:
  assumes "in1 \<noteq> []" and "in2 \<noteq> []" and "k < length in1 + length in2 - 1"
  shows "correlate in1 in2 ! k = cross_correlation_at in1 in2 (int k - (int (length in2) - 1))"
proof -
  let ?la = "length in1" and ?lv = "length in2"
  let ?m = "int k - (int ?lv - 1)"
  let ?A = "{j. j < ?la \<and> j \<le> k \<and> k - j < ?lv}"
  let ?B = "{l. l < ?lv \<and> 0 \<le> int l + ?m \<and> int l + ?m < int ?la}"
  have "correlate in1 in2 ! k
      = (\<Sum>j\<leftarrow>[0..<?la]. if j \<le> k \<and> k - j < ?lv then in1 ! j * rev in2 ! (k - j) else 0)"
    using assms by (simp add: correlate_def convolve_def cong: if_cong)
  also have "\<dots> = (\<Sum>j\<in>{0..<?la}. if j \<le> k \<and> k - j < ?lv then in1 ! j * rev in2 ! (k - j) else 0)"
    by (simp add: interv_sum_list_conv_sum_set_nat)
  also have "\<dots> = (\<Sum>j\<in>?A. in1 ! j * rev in2 ! (k - j))"
    by (rule sum.mono_neutral_cong_right) auto
  also have "\<dots> = (\<Sum>l\<in>?B. in1 ! nat (int l + ?m) * in2 ! l)"
  proof (rule sum.reindex_bij_witness [where i = "\<lambda>l. nat (int l + ?m)" and j = "\<lambda>j. ?lv - 1 - (k - j)"])
    fix j assume "j \<in> ?A"
    then show "nat (int (?lv - 1 - (k - j)) + ?m) = j" by auto
    show "?lv - 1 - (k - j) \<in> ?B" using \<open>j \<in> ?A\<close> by auto
    show "in1 ! nat (int (?lv - 1 - (k - j)) + ?m) * in2 ! (?lv - 1 - (k - j)) = in1 ! j * rev in2 ! (k - j)"
      using \<open>j \<in> ?A\<close> \<open>nat (int (?lv - 1 - (k - j)) + ?m) = j\<close> by (simp add: rev_nth)
  next
    fix l assume "l \<in> ?B"
    then show "?lv - 1 - (k - nat (int l + ?m)) = l" by auto
    show "nat (int l + ?m) \<in> ?A" using \<open>l \<in> ?B\<close> by auto
  qed
  also have "\<dots> = (\<Sum>l\<in>{0..<?lv}. sample in1 (int l + ?m) * in2 ! l)"
    by (rule sum.mono_neutral_cong_left) (auto simp: sample_def)
  also have "\<dots> = cross_correlation_at in1 in2 ?m"
    by (simp add: cross_correlation_at_def interv_sum_list_conv_sum_set_nat)
  finally show ?thesis .
qed


lemma estimate_tdoa_cc_unfold:
  assumes "fs \<noteq> 0" and "argmax (correlate sig1 sig2) = Inr i"
    and "i < length (correlation_lags (length sig1) (length sig2))"
  shows "estimate_tdoa_cc sig1 sig2 fs
       = Inr (real_of_int (correlation_lags (length sig1) (length sig2) ! i) / fs)"
  using assms by (simp add: estimate_tdoa_cc_def)

text \<open>
  C2. For non-empty signals and a positive sample rate, \<open>estimate_tdoa_cc\<close> computes the
  full linear cross-correlation (of length \<open>len(sig1) + len(sig2) - 1\<close>, entry \<open>k\<close> being the
  correlation at the lag of index \<open>k\<close>), over the lag axis of the integers from
  \<open>-(len(sig2) - 1)\<close> to \<open>len(sig1) - 1\<close>, and returns the lag at the first index of the
  maximum, divided by the sample rate.
\<close>
theorem estimate_tdoa_cc_computation:
  assumes "sig1 \<noteq> []" and "sig2 \<noteq> []" and "0 < fs"
  shows "length (correlate sig1 sig2) = length sig1 + length sig2 - 1
       \<and> (\<forall>k<length sig1 + length sig2 - 1.
            correlate sig1 sig2 ! k
              = cross_correlation_at sig1 sig2 (correlation_lags (length sig1) (length sig2) ! k))
       \<and> correlation_lags (length sig1) (length sig2)
            = [- (int (length sig2) - 1) .. int (length sig1) - 1]
       \<and> (\<forall>k<length sig1 + length sig2 - 1.
            correlation_lags (length sig1) (length sig2) ! k = int k - (int (length sig2) - 1))
       \<and> (\<exists>i<length sig1 + length sig2 - 1.
            estimate_tdoa_cc sig1 sig2 fs
              = Inr (real_of_int (correlation_lags (length sig1) (length sig2) ! i) / fs)
            \<and> (\<forall>j<length sig1 + length sig2 - 1. correlate sig1 sig2 ! j \<le> correlate sig1 sig2 ! i)
            \<and> (\<forall>j<i. correlate sig1 sig2 ! j < correlate sig1 sig2 ! i))"
proof -
  let ?n = "length sig1 + length sig2 - 1"
  let ?corr = "correlate sig1 sig2"
  let ?lags = "correlation_lags (length sig1) (length sig2)"
  have len: "length ?corr = ?n"
    using assms(1,2) by (rule length_correlate)
  have pos: "0 < ?n"
    using assms(1,2) by (cases sig1; cases sig2) simp_all
  have lags_len: "length ?lags = ?n"
    using assms(1) by (simp add: length_correlation_lags)
  have lags_nth: "\<forall>k<?n. ?lags ! k = int k - (int (length sig2) - 1)"
    by (simp add: nth_correlation_lags)
  have corr_nth: "\<forall>k<?n. ?corr ! k = cross_correlation_at sig1 sig2 (?lags ! k)"
    using assms(1,2) by (simp add: nth_correlate nth_correlation_lags)
  have "?corr \<noteq> []"
    using len pos by auto
  from argmax_first_max [OF this] obtain i where i: "argmax ?corr = Inr i" "i < length ?corr"
    "\<forall>j<length ?corr. ?corr ! j \<le> ?corr ! i" "\<forall>j<i. ?corr ! j < ?corr ! i"
    by blast
  have "estimate_tdoa_cc sig1 sig2 fs = Inr (real_of_int (?lags ! i) / fs)"
    using assms(3) i(1,2) len lags_len by (intro estimate_tdoa_cc_unfold) simp_all
  then have "\<exists>i<?n. estimate_tdoa_cc sig1 sig2 fs = Inr (real_of_int (?lags ! i) / fs)
            \<and> (\<forall>j<?n. ?corr ! j \<le> ?corr ! i) \<and> (\<forall>j<i. ?corr ! j < ?corr ! i)"
    using i(2,3,4) len by auto
  moreover have "?lags = [- (int (length sig2) - 1) .. int (length sig1) - 1]"
    by (simp add: correlation_lags_def)
  ultimately show ?thesis
    using len corr_nth lags_nth by blast
qed

lemma estimate_tdoa_cc_example: "estimate_tdoa_cc [0, 1, 2] [1, 2] 2 = Inr (1 / 2)"
  by (simp add: estimate_tdoa_cc_def correlate_def convolve_def correlation_lags_def argmax_def
      upt_rec upto_rec1 numeral_eq_Suc nth_Cons')

theorem estimate_tdoa_cc_computation_witness:
  "length (correlate [0, 1, 2] [1, 2]) = length [0, 1, 2 :: real] + length [1, 2 :: real] - 1
   \<and> correlation_lags (length [0, 1, 2 :: real]) (length [1, 2 :: real]) = [- 1 .. 2]
   \<and> estimate_tdoa_cc [0, 1, 2] [1, 2] 2 = Inr (1 / 2)"
proof -
  have h: "[0, 1, 2 :: real] \<noteq> []" "[1, 2 :: real] \<noteq> []" "(0 :: real) < 2"
    by simp_all
  have "length (correlate [0, 1, 2] [1, 2]) = length [0, 1, 2 :: real] + length [1, 2 :: real] - 1"
    using estimate_tdoa_cc_computation [OF h] by blast
  moreover have "correlation_lags (length [0, 1, 2 :: real]) (length [1, 2 :: real])
      = [- (int (length [1, 2 :: real]) - 1) .. int (length [0, 1, 2 :: real]) - 1]"
    using estimate_tdoa_cc_computation [OF h] by blast
  ultimately show ?thesis
    using estimate_tdoa_cc_example by simp
qed

subsection \<open>The generalized cross-correlation estimator\<close>

lemma length_resize: "length (resize a n) = n"
  by (simp add: resize_def)

lemma length_dft: "length (dft z) = length z"
  by (simp add: dft_def Let_def)

lemma length_ifft: "length (ifft a) = length a"
  by (simp add: ifft_def Let_def)

lemma length_cross_spectrum:
  "length (cross_spectrum SIG1 SIG2) = min (length SIG1) (length SIG2)"
  by (simp add: cross_spectrum_def)

lemma length_weight_phat: "length (weight_phat R) = length R"
  by (simp add: weight_phat_def)

lemma length_weight_scot:
  "length (weight_scot SIG1 SIG2 R) = min (length R) (min (length SIG1) (length SIG2))"
  by (simp add: weight_scot_def)

lemma length_gcc_weighted:
  "length (gcc_weighted sig1 sig2 m) = length sig1 + length sig2 - 1"
  by (simp add: gcc_weighted_def Let_def length_weight_phat length_weight_scot
      length_cross_spectrum length_dft length_resize)

lemma length_roll: "length (roll x s) = length x"
  by (simp add: roll_def Let_def)

lemma length_fftshift: "length (fftshift x) = length x"
  by (simp add: fftshift_def length_roll)

lemma nth_roll:
  assumes "i < length x"
  shows "roll x s ! i = x ! ((i + (length x - s mod length x)) mod length x)"
proof -
  let ?n = "length x" and ?k = "s mod length x"
  have n: "0 < ?n" using assms by (cases x) simp_all
  have k: "?k < ?n" using n by simp
  show ?thesis
  proof (cases "i < ?k")
    case True
    then have "(i + (?n - ?k)) mod ?n = i + (?n - ?k)" using k by simp
    moreover have "roll x s ! i = x ! (?n - ?k + i)"
      using True n k by (simp add: roll_def Let_def nth_append)
    ultimately show ?thesis by (simp add: add.commute)
  next
    case False
    then have "i + (?n - ?k) = ?n + (i - ?k)" using k by simp
    moreover have "(?n + (i - ?k)) mod ?n = i - ?k" using assms by simp
    ultimately have "(i + (?n - ?k)) mod ?n = i - ?k" by (simp only:)
    moreover have "roll x s ! i = x ! (i - ?k)"
      using False n k assms by (simp add: roll_def Let_def nth_append)
    ultimately show ?thesis by simp
  qed
qed

lemma nth_fftshift:
  assumes "i < length x"
  shows "fftshift x ! i = x ! ((i + (length x - length x div 2)) mod length x)"
proof -
  have "length x div 2 mod length x = length x div 2"
    using assms by simp
  then show ?thesis
    using nth_roll [OF assms, of "length x div 2"] by (simp add: fftshift_def)
qed

lemma fftshift_centre:
  assumes "x \<noteq> []"
  shows "fftshift x ! (length x div 2) = x ! 0"
proof -
  have "length x div 2 < length x" using assms by simp
  from nth_fftshift [OF this] show ?thesis by simp
qed

lemma lag_axis:
  "map (\<lambda>i. int i - int (n div 2)) [0..<n] = [- int (n div 2) .. int n - 1 - int (n div 2)]"
proof (rule nth_equalityI)
  show "length (map (\<lambda>i. int i - int (n div 2)) [0..<n])
      = length [- int (n div 2) .. int n - 1 - int (n div 2)]"
    by simp
next
  fix i assume "i < length (map (\<lambda>i. int i - int (n div 2)) [0..<n])"
  then show "map (\<lambda>i. int i - int (n div 2)) [0..<n] ! i
      = [- int (n div 2) .. int n - 1 - int (n div 2)] ! i"
    by simp
qed

subsection \<open>A signal against a delayed copy of itself\<close>

lemma sample_outside: "i < 0 \<or> int (length x) \<le> i \<Longrightarrow> sample x i = 0"
  by (auto simp: sample_def)

lemma sample_nat: "l < length x \<Longrightarrow> sample x (int l) = x ! l"
  by (simp add: sample_def)

lemma sample_pad_zeros: "sample (pad_zeros a x b) i = sample x (i - int a)"
proof -
  consider "i < int a" | "int a \<le> i" "i < int a + int (length x)" | "int a + int (length x) \<le> i"
    by linarith
  then show ?thesis
  proof cases
    case 1
    then show ?thesis
      by (auto simp: sample_def pad_zeros_def nth_append)
  next
    case 2
    then have "nat i - a = nat (i - int a)" "\<not> nat i < a" "nat i - a < length x"
      by linarith+
    then show ?thesis
      using 2 by (auto simp: sample_def pad_zeros_def nth_append)
  next
    case 3
    then have "\<not> nat i < a" "\<not> nat i - a < length x"
      by linarith+
    then show ?thesis
      using 3 by (auto simp: sample_def pad_zeros_def nth_append)
  qed
qed

lemma length_pad_zeros: "length (pad_zeros a x b) = a + length x + b"
  by (simp add: pad_zeros_def)

lemma cross_correlation_at_int:
  "cross_correlation_at x y k = (\<Sum>j\<in>{0..<int (length y)}. sample x (j + k) * sample y j)"
proof -
  have "cross_correlation_at x y k = (\<Sum>l\<in>{0..<length y}. sample x (int l + k) * y ! l)"
    by (simp add: cross_correlation_at_def interv_sum_list_conv_sum_set_nat)
  also have "\<dots> = (\<Sum>l\<in>{0..<length y}. sample x (int l + k) * sample y (int l))"
    by (rule sum.cong) (simp_all add: sample_nat)
  also have "\<dots> = (\<Sum>j\<in>int ` {0..<length y}. sample x (j + k) * sample y j)"
    by (simp add: sum.reindex)
  also have "int ` {0..<length y} = {0..<int (length y)}"
    using image_int_atLeastLessThan [of 0 "length y"] by simp
  finally show ?thesis .
qed

lemma cross_correlation_at_pad_zeros:
  "cross_correlation_at (pad_zeros a x b) (pad_zeros c x d) k
     = cross_correlation_at x x (k + int c - int a)"
proof -
  let ?L = "int (length x)"
  have "cross_correlation_at (pad_zeros a x b) (pad_zeros c x d) k
      = (\<Sum>j\<in>{0..<int (c + length x + d)}. sample x (j + k - int a) * sample x (j - int c))"
    by (simp add: cross_correlation_at_int sample_pad_zeros length_pad_zeros)
  also have "\<dots> = (\<Sum>j\<in>{int c..<int c + ?L}. sample x (j + k - int a) * sample x (j - int c))"
    by (rule sum.mono_neutral_right) (auto simp: sample_def)
  also have "\<dots> = (\<Sum>l\<in>{0..<?L}. sample x (l + (k + int c - int a)) * sample x l)"
    by (rule sum.reindex_bij_witness [where i = "\<lambda>l. l + int c" and j = "\<lambda>j. j - int c"])
      (auto simp: algebra_simps)
  finally show ?thesis
    by (simp add: cross_correlation_at_int)
qed

lemma periodic_support:
  assumes "\<And>l. sample x l \<noteq> 0 \<Longrightarrow> sample x (l + t) = sample x l"
    and "sample x l0 \<noteq> 0"
  shows "sample x (l0 + int j * t) = sample x l0"
proof (induction j)
  case 0
  then show ?case by simp
next
  case (Suc j)
  have "sample x (l0 + int j * t) \<noteq> 0" using Suc assms(2) by simp
  from assms(1) [OF this] have "sample x (l0 + int j * t + t) = sample x l0"
    using Suc by simp
  then show ?case by (simp add: algebra_simps)
qed

lemma shifted_differs:
  assumes "\<exists>i<length x. x ! i \<noteq> 0" and "t \<noteq> 0"
  shows "\<exists>l\<in>{0..<int (length x)}. sample x (l + t) \<noteq> sample x l"
proof (rule ccontr)
  assume neg: "\<not> ?thesis"
  obtain i where i: "i < length x" "x ! i \<noteq> 0" using assms(1) by blast
  let ?l0 = "int i" and ?L = "length x"
  have nz: "sample x ?l0 \<noteq> 0" using i by (simp add: sample_nat)
  have per: "sample x (l + t) = sample x l" if "sample x l \<noteq> 0" for l
  proof -
    have "l \<in> {0..<int ?L}" using that sample_outside [of l x] by force
    then show ?thesis using neg by blast
  qed
  have far: "sample x (?l0 + int ?L * t) = sample x ?l0"
    by (rule periodic_support [OF per nz])
  have "?l0 + int ?L * t < 0 \<or> int ?L \<le> ?l0 + int ?L * t"
  proof (cases "0 < t")
    case True
    then have "int ?L * 1 \<le> int ?L * t" by (intro mult_left_mono) simp_all
    then show ?thesis by simp
  next
    case False
    then have "t \<le> - 1" using assms(2) by simp
    then have "int ?L * t \<le> int ?L * (- 1)" by (intro mult_left_mono) simp_all
    then show ?thesis using i(1) by simp
  qed
  then have "sample x (?l0 + int ?L * t) = 0" by (rule sample_outside)
  then show False using far nz by simp
qed

lemma shifted_energy:
  "(\<Sum>l\<in>{0..<int (length x)}. (sample x (l + t))\<^sup>2) \<le> (\<Sum>l\<in>{0..<int (length x)}. (sample x l)\<^sup>2)"
proof -
  let ?I = "{0..<int (length x)}"
  let ?J = "{t..<int (length x) + t}"
  have "(\<Sum>l\<in>?I. (sample x (l + t))\<^sup>2) = (\<Sum>j\<in>?J. (sample x j)\<^sup>2)"
    by (rule sum.reindex_bij_witness [where i = "\<lambda>j. j - t" and j = "\<lambda>l. l + t"]) auto
  also have "\<dots> = (\<Sum>j\<in>?J \<inter> ?I. (sample x j)\<^sup>2)"
    by (rule sum.mono_neutral_right) (auto simp: sample_def)
  also have "\<dots> \<le> (\<Sum>j\<in>?I. (sample x j)\<^sup>2)"
    by (rule sum_mono2) auto
  finally show ?thesis .
qed

lemma autocorrelation_peak:
  assumes "\<exists>i<length x. x ! i \<noteq> 0" and "t \<noteq> 0"
  shows "cross_correlation_at x x t < cross_correlation_at x x 0"
proof -
  let ?I = "{0..<int (length x)}"
  let ?f = "sample x"
  have le: "2 * (?f (l + t) * ?f l) \<le> (?f (l + t))\<^sup>2 + (?f l)\<^sup>2" for l
    using sum_squares_bound [of "?f (l + t)" "?f l"] by (simp add: mult.assoc)
  obtain l0 where l0: "l0 \<in> ?I" "?f (l0 + t) \<noteq> ?f l0"
    using shifted_differs [OF assms] by blast
  have "0 < (?f (l0 + t) - ?f l0)\<^sup>2" using l0(2) by simp
  then have lt: "2 * (?f (l0 + t) * ?f l0) < (?f (l0 + t))\<^sup>2 + (?f l0)\<^sup>2"
    by (simp add: power2_diff)
  have "(\<Sum>l\<in>?I. 2 * (?f (l + t) * ?f l)) < (\<Sum>l\<in>?I. (?f (l + t))\<^sup>2 + (?f l)\<^sup>2)"
    by (rule sum_strict_mono_ex1) (use le lt l0(1) in auto)
  also have "\<dots> = (\<Sum>l\<in>?I. (?f (l + t))\<^sup>2) + (\<Sum>l\<in>?I. (?f l)\<^sup>2)"
    by (simp add: sum.distrib)
  also have "\<dots> \<le> 2 * (\<Sum>l\<in>?I. (?f l)\<^sup>2)"
    using shifted_energy [of x t] by simp
  finally have "2 * (\<Sum>l\<in>?I. ?f (l + t) * ?f l) < 2 * (\<Sum>l\<in>?I. (?f l)\<^sup>2)"
    by (simp add: sum_distrib_left)
  then show ?thesis
    by (simp add: cross_correlation_at_int power2_eq_square)
qed


lemma pad_zeros_neq_Nil: "x \<noteq> [] \<Longrightarrow> pad_zeros a x b \<noteq> []"
  by (simp add: pad_zeros_def)

lemma argmax_correlate_pad_zeros:
  assumes "\<exists>i<length x. x ! i \<noteq> 0"
  shows "argmax (correlate (pad_zeros a x b) (pad_zeros c x d)) = Inr (a + (length x + d) - 1)"
proof -
  let ?s1 = "pad_zeros a x b" and ?s2 = "pad_zeros c x d"
  let ?n = "length ?s1 + length ?s2 - 1"
  let ?i0 = "a + (length x + d) - 1"
  let ?corr = "correlate ?s1 ?s2"
  have x: "x \<noteq> []" using assms by auto
  then have L: "1 \<le> length x" by (cases x) simp_all
  have ne: "?s1 \<noteq> []" "?s2 \<noteq> []" using x by (simp_all add: pad_zeros_neq_Nil)
  have len: "length ?corr = ?n" using ne by (rule length_correlate)
  have i0: "?i0 < ?n" using L by (simp add: length_pad_zeros)
  have val: "?corr ! k = cross_correlation_at x x (int k - int ?i0)" if "k < ?n" for k
  proof -
    have eq: "int k - (int (length ?s2) - 1) + int c - int a = int k - int ?i0"
      using L by (simp add: length_pad_zeros)
    have "?corr ! k = cross_correlation_at ?s1 ?s2 (int k - (int (length ?s2) - 1))"
      by (rule nth_correlate [OF ne that])
    also have "\<dots> = cross_correlation_at x x (int k - (int (length ?s2) - 1) + int c - int a)"
      by (rule cross_correlation_at_pad_zeros)
    finally show ?thesis
      by (simp only: eq)
  qed
  have peak: "?corr ! k < ?corr ! ?i0" if "k < ?n" "k \<noteq> ?i0" for k
  proof -
    have "int k - int ?i0 \<noteq> 0" using that(2) by simp
    from autocorrelation_peak [OF assms this] show ?thesis
      using val [OF that(1)] val [OF i0] by simp
  qed
  show ?thesis
  proof (rule argmax_unique)
    show "?i0 < length ?corr" using i0 len by simp
    show "\<forall>j<length ?corr. ?corr ! j \<le> ?corr ! ?i0"
      using peak len by (metis less_eq_real_def)
    show "\<forall>j<?i0. ?corr ! j < ?corr ! ?i0"
      using peak i0 by simp
  qed
qed

lemma estimate_tdoa_cc_pad_zeros:
  assumes "\<exists>i<length x. x ! i \<noteq> 0" and "0 < fs"
  shows "estimate_tdoa_cc (pad_zeros a x b) (pad_zeros c x d) fs = Inr ((real a - real c) / fs)"
proof -
  let ?s1 = "pad_zeros a x b" and ?s2 = "pad_zeros c x d"
  let ?i0 = "a + (length x + d) - 1"
  have L: "1 \<le> length x" using assms(1) by (cases x) auto
  have i0: "?i0 < length ?s1 + length ?s2 - 1" using L by (simp add: length_pad_zeros)
  have "estimate_tdoa_cc ?s1 ?s2 fs
      = Inr (real_of_int (correlation_lags (length ?s1) (length ?s2) ! ?i0) / fs)"
  proof (rule estimate_tdoa_cc_unfold)
    show "fs \<noteq> 0" using assms(2) by simp
    show "argmax (correlate ?s1 ?s2) = Inr ?i0" by (rule argmax_correlate_pad_zeros [OF assms(1)])
    have "0 < length ?s1 + length ?s2" using L by (auto simp add: length_pad_zeros)
    then show "?i0 < length (correlation_lags (length ?s1) (length ?s2))"
      using i0 by (simp only: length_correlation_lags)
  qed
  also have "correlation_lags (length ?s1) (length ?s2) ! ?i0 = int a - int c"
    using L nth_correlation_lags [OF i0] by (simp add: length_pad_zeros)
  finally show ?thesis by simp
qed

lemma pad_zeros_0: "pad_zeros 0 x 0 = x"
  by (simp add: pad_zeros_def)

text \<open>
  C4 (as amended). In exact arithmetic, for a signal with at least one non-zero sample
  and a positive sample rate: when the first argument holds the signal after \<open>a\<close> samples of silence and the
  second holds it after \<open>c\<close> samples of silence (each followed by any amount of silence,
  nothing cut off), the cross-correlation method returns exactly \<open>(a - c) / fs\<close>. In
  particular a copy delayed by \<open>k\<close> samples against the signal itself gives \<open>k / fs\<close>, and
  the signal against its delayed copy gives \<open>- k / fs\<close>.
\<close>
theorem estimate_tdoa_cc_delayed_copy:
  assumes "\<exists>i<length x. x ! i \<noteq> 0" and "0 < fs"
  shows "estimate_tdoa_cc (pad_zeros a x b) (pad_zeros c x d) fs = Inr ((real a - real c) / fs)
       \<and> estimate_tdoa_cc (replicate k 0 @ x) x fs = Inr (real k / fs)
       \<and> estimate_tdoa_cc x (replicate k 0 @ x) fs = Inr (- real k / fs)"
proof -
  have "estimate_tdoa_cc (pad_zeros k x 0) (pad_zeros 0 x 0) fs = Inr ((real k - real 0) / fs)"
    by (rule estimate_tdoa_cc_pad_zeros [OF assms])
  moreover have "estimate_tdoa_cc (pad_zeros 0 x 0) (pad_zeros k x 0) fs = Inr ((real 0 - real k) / fs)"
    by (rule estimate_tdoa_cc_pad_zeros [OF assms])
  ultimately show ?thesis
    using estimate_tdoa_cc_pad_zeros [OF assms, of a b c d] by (simp add: pad_zeros_def)
qed

theorem estimate_tdoa_cc_delayed_copy_witness:
  "estimate_tdoa_cc [0, 0, 1, 2, 3] [1, 2, 3] 48000 = Inr (2 / 48000)"
proof -
  have a: "\<exists>i<length [1, 2, 3 :: real]. [1, 2, 3 :: real] ! i \<noteq> 0"
    by (rule exI [of _ 0]) simp
  have b: "(0 :: real) < 48000" by simp
  have "estimate_tdoa_cc (replicate 2 0 @ [1, 2, 3]) [1, 2, 3] 48000 = Inr (real 2 / 48000)"
    using estimate_tdoa_cc_delayed_copy [OF a b] by blast
  then show ?thesis by (simp add: numeral_eq_Suc)
qed

text \<open>
  C4 as stated fails in two ways. On a silent signal every correlation value is 0, the
  first index wins, and the result is the most negative lag: two zero samples delayed by
  one sample give \<open>-1 / fs\<close>, not \<open>1 / fs\<close>. And when the delayed copy is cut to the length
  of the signal, the samples pushed out are lost: \<open>[0, 1, 2]\<close>, the copy of \<open>[1, 2, 3]\<close>
  delayed by one sample, correlates best with \<open>[1, 2, 3]\<close> at lag 0.
\<close>

theorem estimate_tdoa_cc_delay_not_recovered:
  "estimate_tdoa_cc (replicate 1 0 @ [0, 0]) [0, 0] 1 = Inr (- 1)
   \<and> estimate_tdoa_cc (replicate 1 0 @ [0, 0]) [0, 0] 1 \<noteq> Inr (1 / 1)
   \<and> estimate_tdoa_cc [0, 1, 2] [1, 2, 3] 1 = Inr 0
   \<and> estimate_tdoa_cc [0, 1, 2] [1, 2, 3] 1 \<noteq> Inr (1 / 1)"
  by (simp add: estimate_tdoa_cc_def correlate_def convolve_def correlation_lags_def argmax_def
      upt_rec upto_rec1 numeral_eq_Suc nth_Cons')

subsection \<open>The discrete Fourier transform and its inverse\<close>

lemma cis_eq_1_imp:
  assumes "cis a = 1"
  shows "\<exists>j::int. a = of_int j * 2 * pi"
proof -
  have "cos a = 1" using assms by (simp add: complex_eq_iff)
  then show ?thesis by (simp add: cos_one_2pi_int)
qed

lemma cis_unity_neq_1:
  assumes "0 < n" and "\<not> int n dvd d"
  shows "cis (2 * pi * real_of_int d / real n) \<noteq> 1"
proof
  assume "cis (2 * pi * real_of_int d / real n) = 1"
  from cis_eq_1_imp [OF this] obtain j :: int
    where "2 * pi * real_of_int d / real n = of_int j * 2 * pi" by blast
  then have "real_of_int d = real_of_int j * real n"
    using assms(1) by (simp add: field_simps)
  then have "real_of_int d = real_of_int (j * int n)" by simp
  then have "d = j * int n" by (simp only: of_int_eq_iff)
  then show False using assms(2) by simp
qed

lemma cis_unity_sum:
  assumes "0 < n" and "\<not> int n dvd d"
  shows "(\<Sum>k<n. cis (2 * pi * real_of_int d * real k / real n)) = 0"
proof -
  let ?r = "cis (2 * pi * real_of_int d / real n)"
  have r1: "?r \<noteq> 1" by (rule cis_unity_neq_1 [OF assms])
  have "?r ^ n = cis (2 * pi * real_of_int d)"
    using assms(1) by (simp add: DeMoivre)
  also have "\<dots> = 1" by (rule cis_multiple_2pi) simp
  finally have rn: "?r ^ n = 1" .
  have "(\<Sum>k<n. cis (2 * pi * real_of_int d * real k / real n)) = (\<Sum>k<n. ?r ^ k)"
    by (rule sum.cong) (simp_all add: DeMoivre mult_ac)
  also have "\<dots> = 0"
    using r1 rn by (simp add: sum_gp_strict)
  finally show ?thesis .
qed

lemma cis_unity_sum_dvd:
  assumes "0 < n" and "int n dvd d"
  shows "(\<Sum>k<n. cis (2 * pi * real_of_int d * real k / real n)) = of_nat n"
proof -
  obtain q where q: "d = int n * q" using assms(2) by (auto simp: dvd_def)
  have "cis (2 * pi * real_of_int d * real k / real n) = 1" for k
  proof -
    have "2 * pi * real_of_int d * real k / real n = 2 * pi * real_of_int (q * int k)"
      using assms(1) by (simp add: q)
    then show ?thesis by (simp only: cis_multiple_2pi Ints_of_int)
  qed
  then show ?thesis by simp
qed


lemma sum_list_upt: "(\<Sum>j\<leftarrow>[0..<n]. f j) = (\<Sum>j<n. f j)"
  for f :: "nat \<Rightarrow> 'a::comm_monoid_add"
  by (simp add: interv_sum_list_conv_sum_set_nat atLeast0LessThan)

lemma nth_dft:
  assumes "k < length z"
  shows "dft z ! k = (\<Sum>j<length z. z ! j * cis (- (2 * pi * real j * real k / real (length z))))"
  using assms by (simp add: dft_def Let_def sum_list_upt)

lemma nth_ifft:
  assumes "m < length a"
  shows "ifft a ! m
       = (\<Sum>k<length a. a ! k * cis (2 * pi * real k * real m / real (length a))) / of_nat (length a)"
  using assms by (simp add: ifft_def Let_def sum_list_upt)

lemma not_dvd_diff:
  assumes "j < n" and "l < n" and "l \<noteq> j"
  shows "\<not> int n dvd (int j - int l)"
proof
  assume "int n dvd (int j - int l)"
  moreover have "int j - int l \<noteq> 0" using assms(3) by simp
  ultimately have "\<bar>int n\<bar> \<le> \<bar>int j - int l\<bar>" by (intro dvd_imp_le_int)
  then show False using assms(1,2) by linarith
qed

lemma dft_inversion:
  assumes "j < length z"
  shows "(\<Sum>k<length z. dft z ! k * cis (2 * pi * real k * real j / real (length z)))
       = of_nat (length z) * z ! j"
proof -
  let ?n = "length z"
  have n: "0 < ?n" using assms by (cases z) simp_all
  have kernel: "(\<Sum>k<?n. cis (2 * pi * real_of_int (int j - int l) * real k / real ?n))
      = (if l = j then of_nat ?n else 0)" if "l < ?n" for l
  proof (cases "l = j")
    case True
    then show ?thesis by simp
  next
    case False
    then show ?thesis
      using cis_unity_sum [OF n not_dvd_diff [OF assms that False]] by simp
  qed
  have "(\<Sum>k<?n. dft z ! k * cis (2 * pi * real k * real j / real ?n))
      = (\<Sum>k<?n. \<Sum>l<?n. z ! l * cis (2 * pi * real_of_int (int j - int l) * real k / real ?n))"
  proof (rule sum.cong)
    fix k assume "k \<in> {..<?n}"
    then have k: "k < ?n" by simp
    have "dft z ! k * cis (2 * pi * real k * real j / real ?n)
        = (\<Sum>l<?n. z ! l * cis (- (2 * pi * real l * real k / real ?n))
                          * cis (2 * pi * real k * real j / real ?n))"
      by (simp add: nth_dft [OF k] sum_distrib_right)
    also have "\<dots> = (\<Sum>l<?n. z ! l * cis (2 * pi * real_of_int (int j - int l) * real k / real ?n))"
    proof (rule sum.cong)
      fix l
      have "- (2 * pi * real l * real k / real ?n) + 2 * pi * real k * real j / real ?n
          = 2 * pi * real_of_int (int j - int l) * real k / real ?n"
        by (simp add: algebra_simps diff_divide_distrib)
      then show "z ! l * cis (- (2 * pi * real l * real k / real ?n))
                     * cis (2 * pi * real k * real j / real ?n)
          = z ! l * cis (2 * pi * real_of_int (int j - int l) * real k / real ?n)"
        by (simp only: mult.assoc cis_mult)
    qed simp
    finally show "dft z ! k * cis (2 * pi * real k * real j / real ?n)
        = (\<Sum>l<?n. z ! l * cis (2 * pi * real_of_int (int j - int l) * real k / real ?n))" .
  qed simp
  also have "\<dots> = (\<Sum>l<?n. \<Sum>k<?n. z ! l * cis (2 * pi * real_of_int (int j - int l) * real k / real ?n))"
    by (rule sum.swap)
  also have "\<dots> = (\<Sum>l<?n. z ! l * (if l = j then of_nat ?n else 0))"
  proof (rule sum.cong)
    fix l assume "l \<in> {..<?n}"
    then have "l < ?n" by simp
    from kernel [OF this]
    show "(\<Sum>k<?n. z ! l * cis (2 * pi * real_of_int (int j - int l) * real k / real ?n))
        = z ! l * (if l = j then of_nat ?n else 0)"
      by (simp only: sum_distrib_left [symmetric])
  qed simp
  also have "\<dots> = (\<Sum>l<?n. if l = j then z ! l * of_nat ?n else 0)"
    by (rule sum.cong) simp_all
  also have "\<dots> = z ! j * of_nat ?n"
    using assms by (simp only: sum.delta finite_lessThan lessThan_iff if_True)
  finally show ?thesis by (simp add: mult.commute)
qed

subsection \<open>A signal against itself under the generalized cross-correlation\<close>

lemma epsilon_pos: "0 < epsilon"
  by (simp add: epsilon_def)

lemma self_weight_nonneg: "0 \<le> self_weight s"
  using epsilon_pos by (simp add: self_weight_def)

lemma self_weight_eq_0: "self_weight s = 0 \<Longrightarrow> s = 0"
proof -
  assume a: "self_weight s = 0"
  have "0 < (cmod s)\<^sup>2 + epsilon"
    using epsilon_pos by (simp add: add_nonneg_pos)
  then have "(cmod s)\<^sup>2 = 0"
    using a by (simp add: self_weight_def)
  then show "s = 0" by simp
qed

lemma phat_self: "(s * cnj s) / complex_of_real (cmod (s * cnj s) + epsilon) = of_real (self_weight s)"
proof -
  have a: "s * cnj s = complex_of_real ((cmod s)\<^sup>2)"
    by (rule complex_norm_square [symmetric])
  have "(s * cnj s) / complex_of_real (cmod (s * cnj s) + epsilon)
      = (s * cnj s) / complex_of_real ((cmod s)\<^sup>2 + epsilon)"
    by (simp only: complex_mod_mult_cnj)
  also have "\<dots> = complex_of_real ((cmod s)\<^sup>2) / complex_of_real ((cmod s)\<^sup>2 + epsilon)"
    by (simp only: a)
  finally show ?thesis
    by (simp only: self_weight_def of_real_divide)
qed

lemma scot_self:
  "(s * cnj s) / complex_of_real (sqrt ((cmod s)\<^sup>2 * (cmod s)\<^sup>2) + epsilon) = of_real (self_weight s)"
proof -
  have "sqrt ((cmod s)\<^sup>2 * (cmod s)\<^sup>2) = \<bar>(cmod s)\<^sup>2\<bar>"
    by (rule real_sqrt_abs2)
  then have "sqrt ((cmod s)\<^sup>2 * (cmod s)\<^sup>2) = (cmod s)\<^sup>2"
    by (simp only: abs_power2)
  moreover have "s * cnj s = complex_of_real ((cmod s)\<^sup>2)"
    by (rule complex_norm_square [symmetric])
  ultimately show ?thesis
    by (simp only: self_weight_def of_real_divide)
qed

lemma weight_phat_self:
  "weight_phat (cross_spectrum S S) = map (\<lambda>s. complex_of_real (self_weight s)) S"
proof (rule nth_equalityI)
  show "length (weight_phat (cross_spectrum S S)) = length (map (\<lambda>s. complex_of_real (self_weight s)) S)"
    by (simp add: weight_phat_def cross_spectrum_def Let_def)
next
  fix i assume "i < length (weight_phat (cross_spectrum S S))"
  then have i: "i < length S"
    by (simp add: weight_phat_def cross_spectrum_def Let_def)
  then have "weight_phat (cross_spectrum S S) ! i
      = (S ! i * cnj (S ! i)) / complex_of_real (cmod (S ! i * cnj (S ! i)) + epsilon)"
    by (simp add: weight_phat_def cross_spectrum_def Let_def del: of_real_add)
  then show "weight_phat (cross_spectrum S S) ! i = map (\<lambda>s. complex_of_real (self_weight s)) S ! i"
    using i by (simp only: phat_self nth_map)
qed

lemma weight_scot_self:
  "weight_scot S S (cross_spectrum S S) = map (\<lambda>s. complex_of_real (self_weight s)) S"
proof (rule nth_equalityI)
  show "length (weight_scot S S (cross_spectrum S S))
      = length (map (\<lambda>s. complex_of_real (self_weight s)) S)"
    by (simp add: weight_scot_def cross_spectrum_def Let_def)
next
  fix i assume "i < length (weight_scot S S (cross_spectrum S S))"
  then have i: "i < length S"
    by (simp add: weight_scot_def cross_spectrum_def Let_def)
  then have "weight_scot S S (cross_spectrum S S) ! i
      = (S ! i * cnj (S ! i))
          / complex_of_real (sqrt ((cmod (S ! i))\<^sup>2 * (cmod (S ! i))\<^sup>2) + epsilon)"
    by (simp add: weight_scot_def cross_spectrum_def Let_def del: of_real_add)
  then show "weight_scot S S (cross_spectrum S S) ! i
      = map (\<lambda>s. complex_of_real (self_weight s)) S ! i"
    using i by (simp only: scot_self nth_map)
qed

lemma gcc_weighted_self:
  "gcc_weighted x x m
     = map (\<lambda>s. complex_of_real (self_weight s))
         (dft (resize (map complex_of_real x) (length x + length x - 1)))"
  by (simp add: gcc_weighted_def Let_def weight_phat_self weight_scot_self)

lemma Re_weighted_ifft:
  assumes "m < length S"
  shows "Re (ifft (map (\<lambda>s. complex_of_real (self_weight s)) S) ! m)
       = (\<Sum>k<length S. self_weight (S ! k) * cos (2 * pi * real k * real m / real (length S)))
           / real (length S)"
proof -
  have "Re (ifft (map (\<lambda>s. complex_of_real (self_weight s)) S) ! m)
      = (\<Sum>k<length S. Re (map (\<lambda>s. complex_of_real (self_weight s)) S ! k
                              * cis (2 * pi * real k * real m / real (length S))))
          / real (length S)"
    using assms by (simp add: nth_ifft)
  also have "(\<Sum>k<length S. Re (map (\<lambda>s. complex_of_real (self_weight s)) S ! k
                              * cis (2 * pi * real k * real m / real (length S))))
      = (\<Sum>k<length S. self_weight (S ! k) * cos (2 * pi * real k * real m / real (length S)))"
    by (rule sum.cong) simp_all
  finally show ?thesis .
qed

lemma cos_one_cis: "cos a = 1 \<Longrightarrow> cis a = 1"
  by (simp add: complex_eq_iff cos_one_sin_zero)

lemma weighted_sum_tie:
  assumes "0 < n"
    and "\<not> (\<Sum>k<n. self_weight (S ! k) * cos (2 * pi * real k * real m / real n)) / real n
           < (\<Sum>k<n. self_weight (S ! k) * cos (2 * pi * real k * real 0 / real n)) / real n"
    and "k < n"
  shows "S ! k * cis (2 * pi * real k * real m / real n) = S ! k"
proof -
  let ?c = "\<lambda>k. cos (2 * pi * real k * real m / real n)"
  let ?w = "\<lambda>k. self_weight (S ! k)"
  have "(\<Sum>k<n. ?w k * 1) \<le> (\<Sum>k<n. ?w k * ?c k)"
    using assms(1,2) by (simp add: divide_less_cancel not_less)
  then have "(\<Sum>k<n. ?w k * 1) - (\<Sum>k<n. ?w k * ?c k) \<le> 0"
    by simp
  then have le: "(\<Sum>k<n. ?w k * (1 - ?c k)) \<le> 0"
    by (simp only: sum_subtractf [symmetric] right_diff_distrib [symmetric])
  have nonneg: "0 \<le> ?w k * (1 - ?c k)" if "k \<in> {..<n}" for k
    by (simp add: self_weight_nonneg)
  then have "0 \<le> (\<Sum>k<n. ?w k * (1 - ?c k))"
    by (intro sum_nonneg)
  then have "(\<Sum>k<n. ?w k * (1 - ?c k)) = 0"
    using le by simp
  then have "\<forall>k\<in>{..<n}. ?w k * (1 - ?c k) = 0"
    by (simp only: sum_nonneg_eq_0_iff [OF finite_lessThan nonneg])
  then have "?w k * (1 - ?c k) = 0"
    using assms(3) by simp
  then consider "?w k = 0" | "?c k = 1"
    by auto
  then show ?thesis
  proof cases
    case 1
    then have "S ! k = 0" by (rule self_weight_eq_0)
    then show ?thesis by simp
  next
    case 2
    then have "cis (2 * pi * real k * real m / real n) = 1" by (rule cos_one_cis)
    then show ?thesis by simp
  qed
qed

lemma cis_mod:
  assumes "0 < n"
  shows "cis (2 * pi * real k * real (i mod n) / real n) = cis (2 * pi * real k * real i / real n)"
proof -
  have "real i = real (i mod n) + real n * real (i div n)"
    by (metis mod_mult_div_eq of_nat_add of_nat_mult)
  then have "2 * pi * real k * real i / real n
      = 2 * pi * real k * real (i mod n) / real n + 2 * pi * real (k * (i div n))"
    using assms by (simp add: field_simps)
  then have "cis (2 * pi * real k * real i / real n)
      = cis (2 * pi * real k * real (i mod n) / real n) * cis (2 * pi * real (k * (i div n)))"
    by (simp only: cis_mult)
  also have "cis (2 * pi * real (k * (i div n))) = 1"
    by (rule cis_multiple_2pi) simp
  finally show ?thesis by simp
qed

lemma spectrum_invariant_periodic:
  assumes "\<forall>k<length z. dft z ! k * cis (2 * pi * real k * real m / real (length z)) = dft z ! k"
    and "j < length z"
  shows "z ! ((j + m) mod length z) = z ! j"
proof -
  let ?n = "length z"
  have n: "0 < ?n" using assms(2) by (cases z) simp_all
  have jm: "(j + m) mod ?n < ?n" using n by simp
  have "of_nat ?n * z ! ((j + m) mod ?n)
      = (\<Sum>k<?n. dft z ! k * cis (2 * pi * real k * real ((j + m) mod ?n) / real ?n))"
    by (rule dft_inversion [OF jm, symmetric])
  also have "\<dots> = (\<Sum>k<?n. dft z ! k * cis (2 * pi * real k * real j / real ?n))"
  proof (rule sum.cong)
    fix k assume "k \<in> {..<?n}"
    then have k: "dft z ! k * cis (2 * pi * real k * real m / real ?n) = dft z ! k"
      using assms(1) by simp
    have "2 * pi * real k * real (j + m) / real ?n
        = 2 * pi * real k * real m / real ?n + 2 * pi * real k * real j / real ?n"
      by (simp add: algebra_simps add_divide_distrib)
    then have "cis (2 * pi * real k * real ((j + m) mod ?n) / real ?n)
        = cis (2 * pi * real k * real m / real ?n) * cis (2 * pi * real k * real j / real ?n)"
      by (simp only: cis_mod [OF n] cis_mult)
    then have "dft z ! k * cis (2 * pi * real k * real ((j + m) mod ?n) / real ?n)
        = (dft z ! k * cis (2 * pi * real k * real m / real ?n))
            * cis (2 * pi * real k * real j / real ?n)"
      by (simp only: mult.assoc)
    then show "dft z ! k * cis (2 * pi * real k * real ((j + m) mod ?n) / real ?n)
        = dft z ! k * cis (2 * pi * real k * real j / real ?n)"
      by (simp only: k)
  qed simp
  also have "\<dots> = of_nat ?n * z ! j"
    by (rule dft_inversion [OF assms(2)])
  finally show ?thesis
    using n by simp
qed

lemma circular_period_steps:
  fixes z :: "complex list"
  assumes "\<forall>j<length z. z ! ((j + s) mod length z) = z ! j"
    and "j0 + t * s < length z"
  shows "z ! (j0 + t * s) = z ! j0"
  using assms(2)
proof (induction t)
  case 0
  then show ?case by simp
next
  case (Suc t)
  then have a: "j0 + t * s < length z" and b: "j0 + t * s + s < length z"
    by simp_all
  have "z ! ((j0 + t * s + s) mod length z) = z ! (j0 + t * s)"
    using assms(1) a by blast
  then have "z ! (j0 + t * s + s) = z ! (j0 + t * s)"
    using b by simp
  moreover have "j0 + Suc t * s = j0 + t * s + s"
    by simp
  ultimately show ?case
    using Suc.IH [OF a] by (simp only:)
qed

lemma circular_period_reverse:
  fixes z :: "complex list"
  assumes "\<forall>j<length z. z ! ((j + m) mod length z) = z ! j" and "m < length z"
  shows "\<forall>j<length z. z ! ((j + (length z - m)) mod length z) = z ! j"
proof (intro allI impI)
  fix j assume j: "j < length z"
  let ?n = "length z"
  let ?j' = "(j + (?n - m)) mod ?n"
  have "0 < ?n" using j by (cases z) simp_all
  then have "?j' < ?n" by simp
  then have "z ! ((?j' + m) mod ?n) = z ! ?j'" using assms(1) by blast
  moreover have "(?j' + m) mod ?n = j"
  proof -
    have "(?j' + m) mod ?n = (j + (?n - m) + m) mod ?n"
      by (simp add: mod_add_left_eq)
    also have "j + (?n - m) + m = j + ?n" using assms(2) by simp
    finally show ?thesis using j by simp
  qed
  ultimately show "z ! ?j' = z ! j" by simp
qed

lemma short_period_reaches_padding:
  fixes s L j0 :: nat
  assumes "1 \<le> s" and "s < L" and "j0 < L"
  shows "\<exists>t. L \<le> j0 + t * s \<and> j0 + t * s < L + L - 1"
proof -
  let ?a = "L - 1 - j0"
  let ?t = "?a div s + 1"
  have s: "0 < s" using assms(1) by simp
  have eq: "?a div s * s + ?a mod s = ?a" by simp
  have md: "?a mod s < s" using s by simp
  have ts: "?t * s = ?a div s * s + s" by (simp add: algebra_simps)
  have lo: "?a < ?t * s" using eq md ts by linarith
  have hi: "?t * s \<le> ?a + s" using eq ts by linarith
  have "L \<le> j0 + ?t * s" using lo assms(3) by linarith
  moreover have "j0 + ?t * s < L + L - 1" using hi assms(2,3) by linarith
  ultimately show ?thesis by blast
qed

lemma circular_period_zero:
  fixes z :: "complex list"
  assumes "length z = L + L - 1"
    and "\<forall>j. L \<le> j \<and> j < L + L - 1 \<longrightarrow> z ! j = 0"
    and "0 < m" and "m < length z"
    and "\<forall>j<length z. z ! ((j + m) mod length z) = z ! j"
    and "j0 < L"
  shows "z ! j0 = 0"
proof -
  define s where "s = (if m < L then m else length z - m)"
  have s1: "1 \<le> s" and s2: "s < L"
    using assms(1,3,4,6) by (auto simp: s_def)
  have per: "\<forall>j<length z. z ! ((j + s) mod length z) = z ! j"
    using assms(5) circular_period_reverse [OF assms(5,4)] by (simp add: s_def)
  obtain t where t: "L \<le> j0 + t * s" "j0 + t * s < L + L - 1"
    using short_period_reaches_padding [OF s1 s2 assms(6)] by blast
  have "z ! (j0 + t * s) = z ! j0"
    using t(2) assms(1) by (intro circular_period_steps [OF per]) simp
  moreover have "z ! (j0 + t * s) = 0"
    using assms(2) t by blast
  ultimately show ?thesis by simp
qed

lemma nth_resize_low:
  "j < length x \<Longrightarrow> resize (map complex_of_real x) (length x + length x - 1) ! j = complex_of_real (x ! j)"
  by (simp add: resize_def nth_append)

lemma nth_resize_high:
  "length x \<le> j \<Longrightarrow> j < length x + length x - 1
     \<Longrightarrow> resize (map complex_of_real x) (length x + length x - 1) ! j = 0"
  by (simp add: resize_def nth_append)

lemma gcc_self_peak:
  assumes "\<exists>i<length x. x ! i \<noteq> 0" and "0 < m" and "m < length x + length x - 1"
  shows "map Re (ifft (gcc_weighted x x meth)) ! m < map Re (ifft (gcc_weighted x x meth)) ! 0"
proof -
  define n where "n = length x + length x - 1"
  define z where "z = resize (map complex_of_real x) n"
  define S where "S = dft z"
  define W where "W = map (\<lambda>s. complex_of_real (self_weight s)) S"
  define y where "y = (\<lambda>m. (\<Sum>k<n. self_weight (S ! k) * cos (2 * pi * real k * real m / real n)) / real n)"
  have lenz: "length z = n" unfolding z_def by (rule length_resize)
  have lenS: "length S = n" unfolding S_def by (simp only: length_dft lenz)
  have lenW: "length (ifft W) = n" unfolding W_def by (simp only: length_ifft length_map lenS)
  have m: "m < n" using assms(3) by (simp only: n_def)
  have n: "0 < n" using assms(2) m by simp
  have W: "gcc_weighted x x meth = W"
    unfolding W_def S_def z_def n_def by (rule gcc_weighted_self)
  have y: "map Re (ifft W) ! j = y j" if "j < n" for j
  proof -
    have "j < length S" using that lenS by simp
    from Re_weighted_ifft [OF this] have "Re (ifft W ! j) = y j"
      unfolding W_def y_def lenS .
    moreover have "map Re (ifft W) ! j = Re (ifft W ! j)"
      using that lenW by simp
    ultimately show ?thesis by simp
  qed
  have "y m < y 0"
  proof (rule ccontr)
    assume "\<not> y m < y 0"
    then have tie: "\<not> (\<Sum>k<n. self_weight (S ! k) * cos (2 * pi * real k * real m / real n)) / real n
           < (\<Sum>k<n. self_weight (S ! k) * cos (2 * pi * real k * real 0 / real n)) / real n"
      unfolding y_def .
    have inv: "\<forall>k<length z. dft z ! k * cis (2 * pi * real k * real m / real (length z)) = dft z ! k"
      unfolding lenz S_def [symmetric] using weighted_sum_tie [OF n tie] by blast
    have per: "\<forall>j<length z. z ! ((j + m) mod length z) = z ! j"
      using spectrum_invariant_periodic [OF inv] by blast
    have pad: "\<forall>j. length x \<le> j \<and> j < length x + length x - 1 \<longrightarrow> z ! j = 0"
      unfolding z_def n_def using nth_resize_high [of x] by blast
    obtain i where i: "i < length x" "x ! i \<noteq> 0" using assms(1) by blast
    have mz: "m < length z" using m lenz by simp
    have lz: "length z = length x + length x - 1" using lenz by (simp only: n_def)
    have "z ! i = 0"
      by (rule circular_period_zero [OF lz pad assms(2) mz per i(1)])
    moreover have "z ! i = complex_of_real (x ! i)"
      unfolding z_def n_def by (rule nth_resize_low [OF i(1)])
    ultimately show False
      using i(2) by simp
  qed
  then show ?thesis
    using y [OF m] y [OF n] by (simp only: W)
qed

lemma shifted_index_nonzero:
  fixes j n :: nat
  assumes "j < n" and "j \<noteq> n div 2"
  shows "0 < (j + (n - n div 2)) mod n"
proof (rule ccontr)
  assume "\<not> 0 < (j + (n - n div 2)) mod n"
  then have "n dvd j + (n - n div 2)" by (simp add: dvd_eq_mod_eq_0)
  then obtain q where q: "j + (n - n div 2) = n * q" by (auto simp: dvd_def)
  have pos: "0 < j + (n - n div 2)" using assms(1) by simp
  have lt: "j + (n - n div 2) < n * 2" using assms(1) by simp
  have "q \<noteq> 0"
  proof
    assume "q = 0"
    with q have "j + (n - n div 2) = n * 0" by (simp only:)
    then have "j + (n - n div 2) = 0" by (simp only: mult_0_right)
    with pos show False by linarith
  qed
  moreover have "q < 2" using q lt assms(1) by simp
  ultimately have "q = 1" by simp
  then have "j = n div 2" using q by simp
  then show False using assms(2) by simp
qed

lemma argmax_gcc_self:
  assumes "\<exists>i<length x. x ! i \<noteq> 0"
  shows "argmax (fftshift (map Re (ifft (gcc_weighted x x meth))))
       = Inr ((length x + length x - 1) div 2)"
proof -
  define n where "n = length x + length x - 1"
  define y where "y = map Re (ifft (gcc_weighted x x meth))"
  define cc where "cc = fftshift y"
  have L: "1 \<le> length x" using assms by (cases x) auto
  have n: "0 < n" using L by (simp add: n_def)
  have leny: "length y = n"
    unfolding y_def n_def by (simp only: length_map length_ifft length_gcc_weighted)
  have lencc: "length cc = n" unfolding cc_def by (simp only: length_fftshift leny)
  have "y \<noteq> []" using leny n by auto
  from fftshift_centre [OF this] have centre: "cc ! (n div 2) = y ! 0"
    unfolding cc_def leny .
  have other: "cc ! j < cc ! (n div 2)" if "j < n" "j \<noteq> n div 2" for j
  proof -
    define m where "m = (j + (n - n div 2)) mod n"
    have "j < length y" using that(1) leny by simp
    from nth_fftshift [OF this] have "cc ! j = y ! m"
      unfolding cc_def leny m_def .
    moreover have "m < length x + length x - 1"
      using n unfolding m_def n_def [symmetric] by simp
    moreover have "0 < m"
      unfolding m_def by (rule shifted_index_nonzero [OF that])
    ultimately show ?thesis
      using gcc_self_peak [OF assms, of m meth] centre by (simp add: y_def)
  qed
  have "argmax cc = Inr (n div 2)"
  proof (rule argmax_unique)
    show "n div 2 < length cc" using n lencc by simp
    show "\<forall>j<length cc. cc ! j \<le> cc ! (n div 2)"
      using other lencc by (metis less_eq_real_def)
    show "\<forall>j<n div 2. cc ! j < cc ! (n div 2)"
      using other n by simp
  qed
  then show ?thesis
    unfolding cc_def y_def n_def .
qed

lemma estimate_tdoa_gcc_self:
  assumes "\<exists>i<length x. x ! i \<noteq> 0" and "0 < fs"
    and "lower meth = ''phat'' \<or> lower meth = ''scot''"
  shows "estimate_tdoa_gcc x x fs meth = Inr 0"
proof -
  have L: "1 \<le> length x" using assms(1) by (cases x) auto
  then have two: "2 \<le> length x + length x" by simp
  let ?n = "length x + length x - 1"
  have i: "?n div 2 < ?n" using L by simp
  have "estimate_tdoa_gcc x x fs meth
      = Inr (map (\<lambda>i. real_of_int (int i - int ?n div 2) / fs) [0..<?n] ! (?n div 2))"
  proof -
    have fs: "fs \<noteq> 0" using assms(2) by simp
    have ok: "\<not> (lower meth \<noteq> ''phat'' \<and> lower meth \<noteq> ''scot'')" using assms(3) by blast
    show ?thesis
      by (simp only: estimate_tdoa_gcc_unfold [OF two] argmax_gcc_self [OF assms(1)]
          sum.case if_False fs ok)
  qed
  also have "map (\<lambda>i. real_of_int (int i - int ?n div 2) / fs) [0..<?n] ! (?n div 2)
      = real_of_int (int (?n div 2) - int ?n div 2) / fs"
    using i by (simp only: nth_map_upt) simp
  also have "int ?n div 2 = int (?n div 2)" by simp
  finally show ?thesis by simp
qed

text \<open>
  C3 (as amended). In exact arithmetic, for every signal with at least one non-zero
  sample and a positive sample rate, the estimator applied to the signal and itself returns a TDOA of 0
  seconds: under cross-correlation, under \<open>phat\<close> and under \<open>scot\<close> (in any spelling of
  the method that lowers to one of the two).
\<close>
theorem estimate_tdoa_identical_signals:
  assumes "\<exists>i<length x. x ! i \<noteq> 0" and "0 < fs"
  shows "estimate_tdoa_cc x x fs = Inr 0
       \<and> estimate_tdoa_gcc x x fs ''phat'' = Inr 0
       \<and> estimate_tdoa_gcc x x fs ''scot'' = Inr 0
       \<and> (lower meth = ''phat'' \<or> lower meth = ''scot'' \<longrightarrow> estimate_tdoa_gcc x x fs meth = Inr 0)"
proof -
  have "estimate_tdoa_cc (pad_zeros 0 x 0) (pad_zeros 0 x 0) fs = Inr ((real 0 - real 0) / fs)"
    by (rule estimate_tdoa_cc_pad_zeros [OF assms])
  then have "estimate_tdoa_cc x x fs = Inr 0"
    by (simp add: pad_zeros_0)
  moreover have "estimate_tdoa_gcc x x fs ''phat'' = Inr 0"
    by (rule estimate_tdoa_gcc_self [OF assms]) (simp add: lower_phat)
  moreover have "estimate_tdoa_gcc x x fs ''scot'' = Inr 0"
    by (rule estimate_tdoa_gcc_self [OF assms]) (simp add: lower_scot)
  ultimately show ?thesis
    using estimate_tdoa_gcc_self [OF assms, of meth] by blast
qed

theorem estimate_tdoa_identical_signals_witness:
  "estimate_tdoa_cc [1, 2] [1, 2] 48000 = Inr 0
   \<and> estimate_tdoa_gcc [1, 2] [1, 2] 48000 ''phat'' = Inr 0
   \<and> estimate_tdoa_gcc [1, 2] [1, 2] 48000 ''scot'' = Inr 0"
proof -
  have a: "\<exists>i<length [1, 2 :: real]. [1, 2 :: real] ! i \<noteq> 0"
    by (rule exI [of _ 0]) simp
  have b: "(0 :: real) < 48000" by simp
  show ?thesis
    using estimate_tdoa_identical_signals [OF a b] by blast
qed

subsection \<open>Silent signals\<close>

lemma argmax_constant: "argmax (replicate (Suc k) c) = Inr 0"
  by (rule argmax_unique) (simp_all del: replicate_Suc)

lemma dft_zero:
  assumes "\<forall>j<length z. z ! j = 0"
  shows "dft z = replicate (length z) 0"
proof (rule nth_equalityI)
  show "length (dft z) = length (replicate (length z) (0 :: complex))"
    by (simp add: length_dft)
next
  fix k assume "k < length (dft z)"
  then have k: "k < length z" by (simp add: length_dft)
  have "dft z ! k = 0"
    using assms by (simp add: nth_dft [OF k])
  then show "dft z ! k = replicate (length z) 0 ! k"
    using k by simp
qed

lemma ifft_zero: "ifft (replicate n 0) = replicate n 0"
proof (rule nth_equalityI)
  show "length (ifft (replicate n 0)) = length (replicate n (0 :: complex))"
    by (simp add: length_ifft)
next
  fix m assume "m < length (ifft (replicate n 0))"
  then have m: "m < length (replicate n (0 :: complex))" by (simp add: length_ifft)
  have "ifft (replicate n 0) ! m = 0"
    by (simp add: nth_ifft [OF m])
  then show "ifft (replicate n 0) ! m = replicate n 0 ! m"
    using m by simp
qed

lemma resize_zero: "resize (replicate a 0) n = replicate n 0"
proof -
  have "resize (replicate a 0) n = replicate (min a n) 0 @ replicate (n - a) 0"
    by (simp add: resize_def)
  also have "\<dots> = replicate (min a n + (n - a)) 0"
    by (simp only: replicate_add)
  also have "min a n + (n - a) = n" by simp
  finally show ?thesis .
qed

lemma gcc_weighted_zero:
  "gcc_weighted (replicate a 0) (replicate b 0) meth = replicate (a + b - 1) 0"
proof -
  define n where "n = a + b - 1"
  have "dft (replicate n 0) = replicate (length (replicate n (0 :: complex))) 0"
    by (rule dft_zero) simp
  then have S: "dft (resize (map complex_of_real (replicate c 0)) n) = replicate n 0" for c
    by (simp add: resize_zero)
  have R: "cross_spectrum (replicate n 0) (replicate n 0) = replicate n 0"
    by (rule nth_equalityI) (simp_all add: cross_spectrum_def)
  have P: "weight_phat (replicate n 0) = replicate n 0"
    by (rule nth_equalityI) (simp_all add: weight_phat_def Let_def)
  have Q: "weight_scot (replicate n 0) (replicate n 0) (replicate n 0) = replicate n 0"
    by (rule nth_equalityI) (simp_all add: weight_scot_def Let_def)
  show ?thesis
    unfolding gcc_weighted_def Let_def length_replicate n_def [symmetric] S R P Q
    by simp
qed

lemma fftshift_replicate: "fftshift (replicate n c) = replicate n c"
proof (rule nth_equalityI)
  show "length (fftshift (replicate n c)) = length (replicate n c)"
    by (simp add: length_fftshift)
next
  fix i assume "i < length (fftshift (replicate n c))"
  then have i: "i < length (replicate n c)" by (simp add: length_fftshift)
  then have n: "0 < n" by simp
  show "fftshift (replicate n c) ! i = replicate n c ! i"
    using i n by (simp add: nth_fftshift [OF i])
qed

lemma estimate_tdoa_gcc_silence:
  assumes "lower meth = ''phat'' \<or> lower meth = ''scot''"
  shows "estimate_tdoa_gcc (replicate 2 0) (replicate 2 0) 1 meth = Inr (- 1)"
proof -
  have two: "2 \<le> length (replicate 2 (0 :: real)) + length (replicate 2 (0 :: real))"
    by simp
  have cc: "fftshift (map Re (ifft (gcc_weighted (replicate 2 0) (replicate 2 0) meth)))
      = replicate (Suc 2) 0"
    by (simp add: gcc_weighted_zero ifft_zero fftshift_replicate)
  have ok: "\<not> (lower meth \<noteq> ''phat'' \<and> lower meth \<noteq> ''scot'')" using assms by blast
  have "estimate_tdoa_gcc (replicate 2 0) (replicate 2 0) 1 meth
      = Inr (map (\<lambda>i. real_of_int (int i - int (2 + 2 - 1) div 2) / 1) [0..<2 + 2 - 1] ! 0)"
    by (simp only: estimate_tdoa_gcc_unfold [OF two] cc argmax_constant ok
        sum.case if_False length_replicate one_neq_zero)
  also have "\<dots> = Inr (- 1)"
    by (simp add: upt_rec)
  finally show ?thesis .
qed

text \<open>
  C3 as stated fails on a silent signal: all correlation values tie at 0, the first index
  wins, and every method returns the most negative lag. For two zero samples at a sample
  rate of 1 the result is \<open>-1\<close> second under all three methods.
\<close>

theorem estimate_tdoa_identical_silence:
  "estimate_tdoa_cc [0, 0] [0, 0] 1 = Inr (- 1)
   \<and> estimate_tdoa_gcc [0, 0] [0, 0] 1 ''phat'' = Inr (- 1)
   \<and> estimate_tdoa_gcc [0, 0] [0, 0] 1 ''scot'' = Inr (- 1)"
proof -
  have "estimate_tdoa_cc [0, 0] [0, 0] 1 = Inr (- 1)"
    by (simp add: estimate_tdoa_cc_def correlate_def convolve_def correlation_lags_def argmax_def
        upt_rec upto_rec1 numeral_eq_Suc nth_Cons')
  moreover have r: "replicate 2 (0 :: real) = [0, 0]"
    by (simp add: numeral_eq_Suc)
  moreover have "estimate_tdoa_gcc (replicate 2 0) (replicate 2 0) 1 ''phat'' = Inr (- 1)"
    by (rule estimate_tdoa_gcc_silence) (simp add: lower_phat)
  moreover have "estimate_tdoa_gcc (replicate 2 0) (replicate 2 0) 1 ''scot'' = Inr (- 1)"
    by (rule estimate_tdoa_gcc_silence) (simp add: lower_scot)
  ultimately show ?thesis by simp
qed

subsection \<open>The generalized cross-correlation estimator against the specification\<close>

lemma cis_as_exp: "cis (2 * pi * real k * real m / real n)
    = exp (2 * complex_of_real pi * \<i> * of_nat k * of_nat m / of_nat n)"
  by (simp add: cis_conv_exp mult_ac)

lemma cis_minus_as_exp: "cis (- (2 * pi * real j * real k / real n))
    = exp (- (2 * complex_of_real pi * \<i> * of_nat j * of_nat k / of_nat n))"
  by (simp add: cis_conv_exp mult_ac)

lemma nth_resize_sample:
  assumes "j < n"
  shows "resize (map complex_of_real x) n ! j = complex_of_real (sample x (int j))"
proof (cases "j < length x")
  case True
  then show ?thesis
    using assms by (simp add: resize_def nth_append sample_def)
next
  case False
  then show ?thesis
    using assms by (simp add: resize_def nth_append sample_def)
qed

lemma nth_dft_resize:
  assumes "k < n"
  shows "dft (resize (map complex_of_real x) n) ! k = spectrum_at x n k"
proof -
  have len: "length (resize (map complex_of_real x) n) = n" by (rule length_resize)
  have "dft (resize (map complex_of_real x) n) ! k
      = (\<Sum>j<n. resize (map complex_of_real x) n ! j * cis (- (2 * pi * real j * real k / real n)))"
    using nth_dft [of k "resize (map complex_of_real x) n"] assms by (simp only: len)
  also have "\<dots> = spectrum_at x n k"
    unfolding spectrum_at_def
    by (rule sum.cong) (simp_all only: nth_resize_sample cis_minus_as_exp lessThan_iff)
  finally show ?thesis .
qed


lemma exp_as_cis_int:
  "exp (2 * complex_of_real pi * \<i> * of_nat k * of_int lag / of_nat n)
     = cis (2 * pi * real k * real_of_int lag / real n)"
  by (simp add: cis_conv_exp mult_ac)

lemma cis_lag_periodic:
  assumes "0 < n"
  shows "cis (2 * pi * real k * real_of_int (lag + int n * q) / real n)
       = cis (2 * pi * real k * real_of_int lag / real n)"
proof -
  have "2 * pi * real k * real_of_int (lag + int n * q) / real n
      = 2 * pi * real k * real_of_int lag / real n + 2 * pi * real_of_int (int k * q)"
    using assms by (simp add: field_simps)
  then have "cis (2 * pi * real k * real_of_int (lag + int n * q) / real n)
      = cis (2 * pi * real k * real_of_int lag / real n) * cis (2 * pi * real_of_int (int k * q))"
    by (simp only: cis_mult)
  also have "cis (2 * pi * real_of_int (int k * q)) = 1"
    by (rule cis_multiple_2pi) simp
  finally show ?thesis by simp
qed

lemma gcc_at_periodic:
  assumes "0 < n"
  shows "gcc_at w x1 x2 n (lag + int n * q) = gcc_at w x1 x2 n lag"
  unfolding gcc_at_def exp_as_cis_int cis_lag_periodic [OF assms] ..

lemma nth_gcc_weighted:
  assumes "lower meth = ''phat'' \<or> lower meth = ''scot''"
    and "k < length sig1 + length sig2 - 1"
  shows "gcc_weighted sig1 sig2 meth ! k
       = weighted_cross_spectrum_at (if lower meth = ''phat'' then Phat else Scot)
           sig1 sig2 (length sig1 + length sig2 - 1) k"
proof -
  define n where "n = length sig1 + length sig2 - 1"
  define S1 where "S1 = dft (resize (map complex_of_real sig1) n)"
  define S2 where "S2 = dft (resize (map complex_of_real sig2) n)"
  have k: "k < n" using assms(2) by (simp only: n_def)
  have len1: "length S1 = n" unfolding S1_def by (simp only: length_dft length_resize)
  have len2: "length S2 = n" unfolding S2_def by (simp only: length_dft length_resize)
  have s1: "S1 ! k = spectrum_at sig1 n k" unfolding S1_def by (rule nth_dft_resize [OF k])
  have s2: "S2 ! k = spectrum_at sig2 n k" unfolding S2_def by (rule nth_dft_resize [OF k])
  have R: "cross_spectrum S1 S2 ! k = S1 ! k * cnj (S2 ! k)"
    using k len1 len2 by (simp add: cross_spectrum_def)
  have lenR: "length (cross_spectrum S1 S2) = n"
    using len1 len2 by (simp add: cross_spectrum_def)
  have P: "weight_phat (cross_spectrum S1 S2) ! k
      = (S1 ! k * cnj (S2 ! k)) / complex_of_real (cmod (S1 ! k * cnj (S2 ! k)) + epsilon)"
    using k lenR by (simp add: weight_phat_def Let_def R del: of_real_add)
  have Q: "weight_scot S1 S2 (cross_spectrum S1 S2) ! k
      = (S1 ! k * cnj (S2 ! k))
          / complex_of_real (sqrt ((cmod (S1 ! k))\<^sup>2 * (cmod (S2 ! k))\<^sup>2) + epsilon)"
    using k lenR len1 len2 by (simp add: weight_scot_def Let_def R del: of_real_add)
  have W: "gcc_weighted sig1 sig2 meth
      = (if lower meth = ''phat'' then weight_phat (cross_spectrum S1 S2)
         else weight_scot S1 S2 (cross_spectrum S1 S2))"
    unfolding gcc_weighted_def Let_def S1_def S2_def n_def ..
  show ?thesis
  proof (cases "lower meth = ''phat''")
    case True
    have "gcc_weighted sig1 sig2 meth ! k = weight_phat (cross_spectrum S1 S2) ! k"
      using True by (simp add: W)
    also have "\<dots> = weighted_cross_spectrum_at Phat sig1 sig2 n k"
      by (simp only: P s1 s2 weighted_cross_spectrum_at_def Let_def weighting.case epsilon_def)
    finally show ?thesis
      using True by (simp add: n_def)
  next
    case False
    have "gcc_weighted sig1 sig2 meth ! k = weight_scot S1 S2 (cross_spectrum S1 S2) ! k"
      using False by (simp add: W)
    also have "\<dots> = weighted_cross_spectrum_at Scot sig1 sig2 n k"
      by (simp only: Q s1 s2 weighted_cross_spectrum_at_def Let_def weighting.case epsilon_def)
    finally show ?thesis
      using False by (simp add: n_def)
  qed
qed

lemma nth_gcc_correlation:
  assumes "lower meth = ''phat'' \<or> lower meth = ''scot''"
    and "m < length sig1 + length sig2 - 1"
  shows "map Re (ifft (gcc_weighted sig1 sig2 meth)) ! m
       = gcc_at (if lower meth = ''phat'' then Phat else Scot)
           sig1 sig2 (length sig1 + length sig2 - 1) (int m)"
proof -
  define n where "n = length sig1 + length sig2 - 1"
  define W where "W = gcc_weighted sig1 sig2 meth"
  define w where "w = (if lower meth = ''phat'' then Phat else Scot)"
  have m: "m < n" using assms(2) by (simp only: n_def)
  have lenW: "length W = n" unfolding W_def n_def by (rule length_gcc_weighted)
  have mW: "m < length W" using m lenW by simp
  have Wk: "W ! k = weighted_cross_spectrum_at w sig1 sig2 n k" if "k < n" for k
    unfolding W_def w_def n_def
    by (rule nth_gcc_weighted [OF assms(1)]) (use that in \<open>simp only: n_def\<close>)
  have "map Re (ifft W) ! m = Re (ifft W ! m)"
    using mW by (simp add: length_ifft)
  also have "ifft W ! m
      = (\<Sum>k<n. W ! k * cis (2 * pi * real k * real m / real n)) / of_nat n"
    using nth_ifft [OF mW] by (simp only: lenW)
  also have "(\<Sum>k<n. W ! k * cis (2 * pi * real k * real m / real n))
      = (\<Sum>k<n. weighted_cross_spectrum_at w sig1 sig2 n k
                 * exp (2 * complex_of_real pi * \<i> * of_nat k * of_int (int m) / of_nat n))"
    by (rule sum.cong) (simp_all add: Wk cis_as_exp)
  finally show ?thesis
    unfolding W_def w_def n_def gcc_at_def .
qed


lemma nth_recentred:
  assumes "lower meth = ''phat'' \<or> lower meth = ''scot''"
    and "i < length sig1 + length sig2 - 1"
  shows "fftshift (map Re (ifft (gcc_weighted sig1 sig2 meth))) ! i
       = gcc_at (if lower meth = ''phat'' then Phat else Scot)
           sig1 sig2 (length sig1 + length sig2 - 1)
           (int i - int ((length sig1 + length sig2 - 1) div 2))"
proof -
  define n where "n = length sig1 + length sig2 - 1"
  define y where "y = map Re (ifft (gcc_weighted sig1 sig2 meth))"
  define w where "w = (if lower meth = ''phat'' then Phat else Scot)"
  define m where "m = (i + (n - n div 2)) mod n"
  define d where "d = (i + (n - n div 2)) div n"
  have i: "i < n" using assms(2) by (simp only: n_def)
  then have n: "0 < n" by simp
  have leny: "length y = n"
    unfolding y_def n_def by (simp only: length_map length_ifft length_gcc_weighted)
  have m: "m < n" unfolding m_def using n by simp
  have "i < length y" using i leny by simp
  from nth_fftshift [OF this] have "fftshift y ! i = y ! m"
    unfolding leny m_def .
  also have "y ! m = gcc_at w sig1 sig2 n (int m)"
    unfolding y_def w_def n_def
    by (rule nth_gcc_correlation [OF assms(1)]) (use m in \<open>simp only: n_def\<close>)
  also have "int m = (int i - int (n div 2)) + int n * (1 - int d)"
  proof -
    have "i + (n - n div 2) = d * n + m"
      unfolding d_def m_def by simp
    then have "int i + (int n - int (n div 2)) = int d * int n + int m"
      by (metis div_le_dividend of_nat_add of_nat_diff of_nat_mult)
    then show ?thesis by (simp add: algebra_simps)
  qed
  also have "gcc_at w sig1 sig2 n ((int i - int (n div 2)) + int n * (1 - int d))
      = gcc_at w sig1 sig2 n (int i - int (n div 2))"
    by (rule gcc_at_periodic [OF n])
  finally show ?thesis
    unfolding y_def w_def n_def .
qed

text \<open>
  C1. For a method that lowers to \<open>'phat'\<close> or \<open>'scot'\<close>, a transform length
  \<open>n = len(sig1) + len(sig2) - 1\<close> of at least 1 and a positive sample rate: the array
  that \<open>estimate_tdoa_gcc\<close> searches holds, at index \<open>i\<close>, the real part of the inverse
  transform of the weighted cross-spectrum (both taken at length \<open>n\<close>) at lag
  \<open>i - n div 2\<close>, so that index \<open>n div 2\<close> holds lag 0 and the lag axis runs from
  \<open>-(n div 2)\<close> to \<open>n - 1 - n div 2\<close>; the function returns \<open>(i - n div 2) / fs\<close> for the
  first index \<open>i\<close> of the maximum.
\<close>
theorem estimate_tdoa_gcc_computation:
  assumes "lower meth = ''phat'' \<or> lower meth = ''scot''"
    and "2 \<le> length sig1 + length sig2" and "0 < fs"
  shows "let n = length sig1 + length sig2 - 1;
             w = (if lower meth = ''phat'' then Phat else Scot);
             cc = (\<lambda>i. gcc_at w sig1 sig2 n (int i - int (n div 2)))
         in cc (n div 2) = gcc_at w sig1 sig2 n 0
          \<and> map (\<lambda>i. int i - int (n div 2)) [0..<n] = [- int (n div 2) .. int n - 1 - int (n div 2)]
          \<and> (\<forall>i<n. fftshift (map Re (ifft (gcc_weighted sig1 sig2 meth))) ! i = cc i)
          \<and> (\<exists>i<n. estimate_tdoa_gcc sig1 sig2 fs meth = Inr ((real i - real (n div 2)) / fs)
                \<and> (\<forall>j<n. cc j \<le> cc i) \<and> (\<forall>j<i. cc j < cc i))"
proof -
  define n where "n = length sig1 + length sig2 - 1"
  define w where "w = (if lower meth = ''phat'' then Phat else Scot)"
  define cc where "cc = (\<lambda>i. gcc_at w sig1 sig2 n (int i - int (n div 2)))"
  define a where "a = fftshift (map Re (ifft (gcc_weighted sig1 sig2 meth)))"
  have pos: "1 \<le> n" using assms(2) by (simp add: n_def)
  have lena: "length a = n"
    unfolding a_def n_def
    by (simp only: length_fftshift length_map length_ifft length_gcc_weighted)
  have entries: "a ! i = cc i" if "i < n" for i
    unfolding a_def cc_def w_def n_def
    by (rule nth_recentred [OF assms(1)]) (use that in \<open>simp only: n_def\<close>)
  have "a \<noteq> []" using lena pos by auto
  from argmax_first_max [OF this] obtain i where i: "argmax a = Inr i" "i < n"
    "\<forall>j<n. a ! j \<le> a ! i" "\<forall>j<i. a ! j < a ! i"
    using lena by auto
  have first: "(\<forall>j<n. cc j \<le> cc i) \<and> (\<forall>j<i. cc j < cc i)"
    using i(2,3,4) entries by (metis less_trans)
  have fs: "fs \<noteq> 0" using assms(3) by simp
  have ok: "\<not> (lower meth \<noteq> ''phat'' \<and> lower meth \<noteq> ''scot'')" using assms(1) by blast
  have "estimate_tdoa_gcc sig1 sig2 fs meth
      = Inr (map (\<lambda>i. real_of_int (int i - int n div 2) / fs) [0..<n] ! i)"
    using i(1) unfolding a_def n_def
    by (simp only: estimate_tdoa_gcc_unfold [OF assms(2)] sum.case if_False fs ok)
  also have "map (\<lambda>i. real_of_int (int i - int n div 2) / fs) [0..<n] ! i
      = (real i - real (n div 2)) / fs"
  proof -
    have "int n div 2 = int (n div 2)" by simp
    then show ?thesis using i(2) by simp
  qed
  finally have res: "\<exists>i<n. estimate_tdoa_gcc sig1 sig2 fs meth = Inr ((real i - real (n div 2)) / fs)
      \<and> (\<forall>j<n. cc j \<le> cc i) \<and> (\<forall>j<i. cc j < cc i)"
    using i(2) first by blast
  have centre: "cc (n div 2) = gcc_at w sig1 sig2 n 0"
    by (simp add: cc_def)
  have all: "\<forall>i<n. a ! i = cc i" using entries by blast
  show ?thesis
    unfolding Let_def n_def [symmetric] w_def [symmetric] a_def [symmetric]
    by (intro conjI lag_axis centre [unfolded cc_def] all [unfolded cc_def] res [unfolded cc_def])
qed

theorem estimate_tdoa_gcc_computation_witness:
  "\<exists>i<3. estimate_tdoa_gcc [1, 2] [1, 2] 48000 ''PHAT'' = Inr ((real i - 1) / 48000)
         \<and> (\<forall>j<3. gcc_at Phat [1, 2] [1, 2] 3 (int j - 1) \<le> gcc_at Phat [1, 2] [1, 2] 3 (int i - 1))"
proof -
  have a: "lower ''PHAT'' = ''phat'' \<or> lower ''PHAT'' = ''scot''" by code_simp
  have a': "lower ''PHAT'' = ''phat''" by code_simp
  have b: "2 \<le> length [1, 2 :: real] + length [1, 2 :: real]" by simp
  have c: "(0 :: real) < 48000" by simp
  have "\<exists>i<length [1, 2 :: real] + length [1, 2 :: real] - 1.
      estimate_tdoa_gcc [1, 2] [1, 2] 48000 ''PHAT''
        = Inr ((real i - real ((length [1, 2 :: real] + length [1, 2 :: real] - 1) div 2)) / 48000)
      \<and> (\<forall>j<length [1, 2 :: real] + length [1, 2 :: real] - 1.
            gcc_at (if lower ''PHAT'' = ''phat'' then Phat else Scot) [1, 2] [1, 2]
              (length [1, 2 :: real] + length [1, 2 :: real] - 1)
              (int j - int ((length [1, 2 :: real] + length [1, 2 :: real] - 1) div 2))
            \<le> gcc_at (if lower ''PHAT'' = ''phat'' then Phat else Scot) [1, 2] [1, 2]
              (length [1, 2 :: real] + length [1, 2 :: real] - 1)
              (int i - int ((length [1, 2 :: real] + length [1, 2 :: real] - 1) div 2)))"
    using estimate_tdoa_gcc_computation [OF a b c] unfolding Let_def by blast
  then have "\<exists>i<Suc (Suc (Suc 0)).
      estimate_tdoa_gcc [1, 2] [1, 2] 48000 ''PHAT'' = Inr ((real i - 1) / 48000)
      \<and> (\<forall>j<Suc (Suc (Suc 0)).
            gcc_at Phat [1, 2] [1, 2] (Suc (Suc (Suc 0))) (int j - 1)
            \<le> gcc_at Phat [1, 2] [1, 2] (Suc (Suc (Suc 0))) (int i - 1))"
    by (simp add: a')
  then show ?thesis
    by (simp only: numeral_3_eq_3)
qed

end
